theory Spec2Isabelle
  imports Main "HOL-Library.Sublist"
begin

section \<open>The settings store of package walk (IniFileSettings)\<close>

text \<open>
  Go strings are byte sequences; they are modelled as \<^typ>\<open>string\<close>, a list of
  8-bit characters. The three characters the store treats specially:
\<close>

definition CR :: char where
  "CR = CHR 0x0D"

definition LF :: char where
  "LF = CHR 0x0A"

definition EQ :: char where
  "EQ = CHR 0x3D"

subsection \<open>Errors\<close>

text \<open>
  Failures of the file system, as the operating system reports them.
\<close>

datatype errno = ENOENT | EACCES | EIO | ENOSPC

text \<open>
  Values of Go's \<open>os.Error\<close> that reach the store: the end-of-file marker \<open>os.EOF\<close>,
  the full-buffer marker of package bufio, and failures of the file system.
\<close>

datatype os_Error = EOF | ErrBufferFull | Errno errno

text \<open>
  The errors the store returns. \<open>newError\<close> and \<open>wrapError\<close> are the two error
  constructors of package walk; they are defined elsewhere in the package and taken as
  constructors here. \<open>rawError\<close> is an \<open>os.Error\<close> returned as it is, which
  \<open>Save\<close> does with the result of \<open>Flush\<close>.
\<close>

datatype error = newError string | wrapError os_Error | rawError os_Error

text \<open>The two messages of the store, character by character.\<close>

definition invalidCharsMsg :: string where
  "invalidCharsMsg =
     ''either key or value contains at least one of the invalid characters '' @
     [CHR 0x27, EQ, CHR 0x5C, CHR ''r'', CHR 0x5C, CHR ''n'', CHR 0x27]"

definition missingAssignMsg :: string where
  "missingAssignMsg = ''bad line format: missing '' @ [CHR 0x27, EQ, CHR 0x27]"

text \<open>The error kinds of the specification, as the code produces them.\<close>

definition InvalidFormat :: error where
  "InvalidFormat = newError invalidCharsMsg"

definition ParseError :: error where
  "ParseError = newError missingAssignMsg"

definition IOError :: "error \<Rightarrow> bool" where
  "IOError e = (case e of wrapError _ \<Rightarrow> True | rawError _ \<Rightarrow> True | newError _ \<Rightarrow> False)"

subsection \<open>Package strings\<close>

text \<open>
  \<open>strings.Index(s, sep)\<close>: the index of the first instance of \<open>sep\<close> in \<open>s\<close>,
  or \<open>-1\<close>.
\<close>

fun Index :: "string \<Rightarrow> string \<Rightarrow> int" where
  "Index [] sep = (if sep = [] then 0 else - 1)"
| "Index (c # s) sep =
     (if prefix sep (c # s) then 0
      else (let i = Index s sep in if i = - 1 then - 1 else i + 1))"

text \<open>
  \<open>strings.IndexAny(s, chars)\<close>: the index of the first instance of any code point
  of \<open>chars\<close> in \<open>s\<close>, or \<open>-1\<close>. The store calls it with ASCII \<open>chars\<close> only;
  an ASCII byte of a Go string is always a code point of its own (it is never part of
  a multi-byte UTF-8 sequence), so the search is the search for a byte.
\<close>

fun IndexAny :: "string \<Rightarrow> string \<Rightarrow> int" where
  "IndexAny [] chars = - 1"
| "IndexAny (c # s) chars =
     (if c \<in> set chars then 0
      else (let i = IndexAny s chars in if i = - 1 then - 1 else i + 1))"

subsection \<open>Package strings: TrimSpace\<close>

text \<open>
  \<open>strings.TrimSpace(s)\<close> is \<open>s\<close> with all leading and trailing white space
  removed, as defined by Unicode: \<open>TrimRightFunc(TrimLeftFunc(s, unicode.IsSpace),
  unicode.IsSpace)\<close>. The string is read as UTF-8, so a white space code point is the
  byte sequence that encodes it. \<open>whiteSpace\<close> lists the encodings of the code points
  \<open>unicode.IsSpace\<close> accepts in the Go release the store was written for (Unicode
  6.0): U+0009 to U+000D, U+0020, U+0085, U+00A0, U+1680, U+180E, U+2000 to U+200A,
  U+2028, U+2029, U+202F, U+205F, U+3000.
\<close>

definition whiteSpace :: "string list" where
  "whiteSpace =
     [[CHR 0x09], [CHR 0x0A], [CHR 0x0B], [CHR 0x0C], [CHR 0x0D], [CHR 0x20],
      [CHR 0xC2, CHR 0x85], [CHR 0xC2, CHR 0xA0],
      [CHR 0xE1, CHR 0x9A, CHR 0x80], [CHR 0xE1, CHR 0xA0, CHR 0x8E],
      [CHR 0xE2, CHR 0x80, CHR 0x80], [CHR 0xE2, CHR 0x80, CHR 0x81],
      [CHR 0xE2, CHR 0x80, CHR 0x82], [CHR 0xE2, CHR 0x80, CHR 0x83],
      [CHR 0xE2, CHR 0x80, CHR 0x84], [CHR 0xE2, CHR 0x80, CHR 0x85],
      [CHR 0xE2, CHR 0x80, CHR 0x86], [CHR 0xE2, CHR 0x80, CHR 0x87],
      [CHR 0xE2, CHR 0x80, CHR 0x88], [CHR 0xE2, CHR 0x80, CHR 0x89],
      [CHR 0xE2, CHR 0x80, CHR 0x8A], [CHR 0xE2, CHR 0x80, CHR 0xA8],
      [CHR 0xE2, CHR 0x80, CHR 0xA9], [CHR 0xE2, CHR 0x80, CHR 0xAF],
      [CHR 0xE2, CHR 0x81, CHR 0x9F], [CHR 0xE3, CHR 0x80, CHR 0x80]]"

text \<open>The white space code point a string starts with, and the one it ends with.\<close>

definition leadingSpace :: "string \<Rightarrow> string option" where
  "leadingSpace s = find (\<lambda>w. prefix w s) whiteSpace"

definition trailingSpace :: "string \<Rightarrow> string option" where
  "trailingSpace s = find (\<lambda>w. suffix w s) whiteSpace"

lemma whiteSpace_nonempty: "w \<in> set whiteSpace \<Longrightarrow> w \<noteq> []"
  by (auto simp: whiteSpace_def)

lemma leadingSpace_Some: "leadingSpace s = Some w \<Longrightarrow> w \<noteq> [] \<and> prefix w s"
  unfolding leadingSpace_def
  by (auto simp: find_Some_iff whiteSpace_nonempty)

lemma trailingSpace_Some: "trailingSpace s = Some w \<Longrightarrow> w \<noteq> [] \<and> suffix w s"
  unfolding trailingSpace_def
  by (auto simp: find_Some_iff whiteSpace_nonempty)

function TrimLeftSpace :: "string \<Rightarrow> string" where
  "TrimLeftSpace s =
     (case leadingSpace s of
        None \<Rightarrow> s
      | Some w \<Rightarrow> TrimLeftSpace (drop (length w) s))"
  by pat_completeness auto
termination
proof (relation "measure length")
  show "wf (measure length)" by simp
next
  fix s w
  assume "leadingSpace s = Some w"
  then have "w \<noteq> []" and "prefix w s"
    by (simp_all add: leadingSpace_Some)
  then have "s \<noteq> []" by auto
  with \<open>w \<noteq> []\<close> show "(drop (length w) s, s) \<in> measure length" by simp
qed

function TrimRightSpace :: "string \<Rightarrow> string" where
  "TrimRightSpace s =
     (case trailingSpace s of
        None \<Rightarrow> s
      | Some w \<Rightarrow> TrimRightSpace (take (length s - length w) s))"
  by pat_completeness auto
termination
proof (relation "measure length")
  show "wf (measure length)" by simp
next
  fix s w
  assume "trailingSpace s = Some w"
  then have "w \<noteq> []" and "suffix w s"
    by (simp_all add: trailingSpace_Some)
  then have "s \<noteq> []" by auto
  with \<open>w \<noteq> []\<close> show "(take (length s - length w) s, s) \<in> measure length" by simp
qed

declare TrimLeftSpace.simps [simp del] TrimRightSpace.simps [simp del]

definition TrimSpace :: "string \<Rightarrow> string" where
  "TrimSpace s = TrimRightSpace (TrimLeftSpace s)"

subsection \<open>The store: Get and Put\<close>

record IniFileSettings =
  data :: "string \<rightharpoonup> string"

definition NewIniFileSettings :: IniFileSettings where
  "NewIniFileSettings = \<lparr>data = Map.empty\<rparr>"

text \<open>
  \<open>val, ok := ifs.data[key]\<close>: a missing key gives the zero value, the empty string,
  and \<open>false\<close>.
\<close>

definition Get :: "IniFileSettings \<Rightarrow> string \<Rightarrow> string \<times> bool" where
  "Get ifs key = (case data ifs key of None \<Rightarrow> ([], False) | Some val \<Rightarrow> (val, True))"

text \<open>\<open>Put\<close> returns the error (\<open>None\<close> is Go's \<open>nil\<close>) and the store after the call.\<close>

definition Put :: "IniFileSettings \<Rightarrow> string \<Rightarrow> string \<Rightarrow> error option \<times> IniFileSettings" where
  "Put ifs key val =
     (if IndexAny key [EQ, CR, LF] > - 1 \<or> IndexAny val [CR, LF] > - 1
      then (Some (newError invalidCharsMsg), ifs)
      else (None, ifs\<lparr>data := (data ifs)(key \<mapsto> val)\<rparr>))"

subsection \<open>The application and the file system\<close>

text \<open>
  \<open>AppDataPath()\<close> and \<open>appSingleton\<close> are defined elsewhere in package walk, and
  \<open>path.Join\<close> in Go's library; the store only passes their results on. They are
  parameters of the model. \<open>AppDataPath\<close> is the pair that the Go function returns.
\<close>

record app_env =
  AppDataPath :: "string \<times> error option"
  OrganizationName :: string
  ProductName :: string
  path_Join :: "string list \<Rightarrow> string"

text \<open>
  \<open>path.Split\<close> splits a path immediately after the final slash; without a slash the
  directory is empty.
\<close>

definition path_Split :: "string \<Rightarrow> string \<times> string" where
  "path_Split p =
     (rev (dropWhile (\<lambda>c. c \<noteq> CHR ''/'') (rev p)), rev (takeWhile (\<lambda>c. c \<noteq> CHR ''/'') (rev p)))"

text \<open>
  The file system is the content of its regular files, by path. What the operating
  system answers to one call of \<open>Load\<close> or \<open>Save\<close> beyond that is given by a record
  of faults: a failure of \<open>os.Stat\<close>, of \<open>os.MkdirAll\<close>, of \<open>os.OpenFile\<close>, a read that
  fails after so many bytes, a failure of the i-th \<open>WriteString\<close> or of \<open>Flush\<close>, and
  the number of bytes that reached the file when a write failed.
\<close>

type_synonym filesys = "string \<rightharpoonup> string"

record os_faults =
  statErr :: "errno option"
  mkdirErr :: "errno option"
  openErr :: "errno option"
  readErr :: "(nat \<times> errno) option"
  writeErr :: "nat \<Rightarrow> errno option"
  flushErr :: "errno option"
  written :: nat

definition noFaults :: os_faults where
  "noFaults = \<lparr>statErr = None, mkdirErr = None, openErr = None, readErr = None,
     writeErr = (\<lambda>_. None), flushErr = None, written = 0\<rparr>"

definition Stat :: "os_faults \<Rightarrow> filesys \<Rightarrow> string \<Rightarrow> errno option" where
  "Stat flt fs p =
     (case statErr flt of
        Some e \<Rightarrow> Some e
      | None \<Rightarrow> (if fs p = None then Some ENOENT else None))"

definition MkdirAll :: "os_faults \<Rightarrow> string \<Rightarrow> errno option" where
  "MkdirAll flt dir = mkdirErr flt"

text \<open>The flags of \<open>os.OpenFile\<close>; \<open>O_RDONLY\<close> is the absence of the others.\<close>

datatype open_flag = O_WRONLY | O_CREATE | O_TRUNC

definition O_RDONLY :: "open_flag set" where
  "O_RDONLY = {}"

text \<open>An open file is known by its path. Opening can create or truncate the file.\<close>

definition OpenFile :: "os_faults \<Rightarrow> filesys \<Rightarrow> string \<Rightarrow> open_flag set \<Rightarrow> errno + (string \<times> filesys)" where
  "OpenFile flt fs p flags =
     (case openErr flt of
        Some e \<Rightarrow> Inl e
      | None \<Rightarrow>
         (case fs p of
            None \<Rightarrow> if O_CREATE \<in> flags then Inr (p, fs(p \<mapsto> [])) else Inl ENOENT
          | Some c \<Rightarrow> if O_TRUNC \<in> flags then Inr (p, fs(p \<mapsto> [])) else Inr (p, fs)))"

subsection \<open>Package bufio: reading lines\<close>

text \<open>
  A \<open>bufio.Reader\<close> on a file: the bytes the file still delivers, and the failure
  its \<open>Read\<close> reports once they are used up (none at the end of the file, where
  \<open>Read\<close> reports \<open>os.EOF\<close>). \<open>bufio.NewReader\<close> gives the reader a buffer of 4096
  bytes.
\<close>

record Reader =
  rd_buf :: string
  rd_err :: "errno option"

definition readError :: "Reader \<Rightarrow> os_Error" where
  "readError b = (case rd_err b of None \<Rightarrow> EOF | Some e \<Rightarrow> Errno e)"

definition defaultBufSize :: nat where
  "defaultBufSize = 4096"

definition NewReader :: "os_faults \<Rightarrow> filesys \<Rightarrow> string \<Rightarrow> Reader" where
  "NewReader flt fs file =
     (let content = (case fs file of None \<Rightarrow> [] | Some c \<Rightarrow> c)
      in case readErr flt of
           None \<Rightarrow> \<lparr>rd_buf = content, rd_err = None\<rparr>
         | Some (n, e) \<Rightarrow> \<lparr>rd_buf = take n content, rd_err = Some e\<rparr>)"

text \<open>
  \<open>ReadSlice(delim)\<close> reads until the first occurrence of \<open>delim\<close> and returns the
  bytes up to and including it. When the buffer fills without a \<open>delim\<close> it returns
  the whole buffer and \<open>ErrBufferFull\<close>; when the input ends before a \<open>delim\<close> it
  returns what is left and the error of the input.
\<close>

definition ReadSlice :: "Reader \<Rightarrow> char \<Rightarrow> (string \<times> os_Error option) \<times> Reader" where
  "ReadSlice b delim =
     (let window = take defaultBufSize (rd_buf b);
          line = takeWhile (\<lambda>c. c \<noteq> delim) window
      in if length line < length window
         then ((line @ [delim], None), b\<lparr>rd_buf := drop (Suc (length line)) (rd_buf b)\<rparr>)
         else if defaultBufSize \<le> length (rd_buf b)
         then ((window, Some ErrBufferFull), b\<lparr>rd_buf := drop defaultBufSize (rd_buf b)\<rparr>)
         else ((rd_buf b, Some (readError b)), b\<lparr>rd_buf := []\<rparr>))"

text \<open>
  \<open>ReadLine\<close> returns \<open>(line, isPrefix, err)\<close>: a line without its end-of-line bytes,
  or, when the line is too long for the buffer, its beginning with \<open>isPrefix\<close> set,
  or an error and no line. This is the \<open>ReadLine\<close> of the Go releases that have
  \<open>os.Error\<close>, which the store is written for: it takes a line feed off the end of
  what \<open>ReadSlice\<close> returned and then a carriage return. (Later releases take the
  carriage return off only together with the line feed; after \<open>TrimSpace\<close> the
  entries that \<open>Load\<close> stores are the same.)
\<close>

definition ReadLine :: "Reader \<Rightarrow> (string \<times> bool \<times> os_Error option) \<times> Reader" where
  "ReadLine b =
     (case ReadSlice b LF of
        ((line, err), b') \<Rightarrow>
          if err = Some ErrBufferFull then ((line, True, None), b')
          else if line = [] then ((line, False, err), b')
          else
            (let line1 = (if last line = LF then butlast line else line);
                 line2 = (if line1 \<noteq> [] \<and> last line1 = CR then butlast line1 else line1)
             in ((line2, False, None), b')))"

lemma ReadLine_consumes:
  assumes "ReadLine b = ((ln, isPrefix, None), b')"
  shows "length (rd_buf b') < length (rd_buf b)"
proof -
  have pos: "0 < defaultBufSize" by (simp add: defaultBufSize_def)
  show ?thesis
  proof (cases "rd_buf b = []")
    case True
    with assms pos show ?thesis
      by (auto simp: ReadLine_def ReadSlice_def readError_def Let_def
          split: if_splits option.splits)
  next
    case False
    with assms pos show ?thesis
      by (auto simp: ReadLine_def ReadSlice_def Let_def split: if_splits)
  qed
qed

subsection \<open>Load\<close>

text \<open>
  The inner loop of \<open>Load\<close>: append the fragments that \<open>ReadLine\<close> returns to
  \<open>lineBytes\<close> until one comes without \<open>isPrefix\<close>. It ends with the line (the
  \<open>break\<close>) or with the error on which \<open>Load\<close> returns.
\<close>

function readFragments :: "string \<Rightarrow> Reader \<Rightarrow> (string + os_Error) \<times> Reader" where
  "readFragments lineBytes reader =
     (case ReadLine reader of
        ((ln, isPrefix, Some err), reader') \<Rightarrow> (Inr err, reader')
      | ((ln, isPrefix, None), reader') \<Rightarrow>
          if \<not> isPrefix then (Inl (lineBytes @ ln), reader')
          else readFragments (lineBytes @ ln) reader')"
  by pat_completeness auto
termination
proof (relation "measure (\<lambda>(lineBytes, reader). length (rd_buf reader))")
  show "wf (measure (\<lambda>(lineBytes, reader). length (rd_buf reader)))" by simp
next
  fix lineBytes reader x1 reader' ln x2 isPrefix err
  assume "(x1, reader') = ReadLine reader" "(ln, x2) = x1" "(isPrefix, err) = x2"
    "err = None" "\<not> \<not> isPrefix"
  then have "ReadLine reader = ((ln, isPrefix, None), reader')" by simp
  then have "length (rd_buf reader') < length (rd_buf reader)" by (rule ReadLine_consumes)
  then show "((lineBytes @ ln, reader'), (lineBytes, reader))
      \<in> measure (\<lambda>(lineBytes, reader). length (rd_buf reader))" by simp
qed

declare readFragments.simps [simp del]

lemma readFragments_consumes:
  "readFragments lineBytes reader = (Inl l, reader') \<Longrightarrow>
   length (rd_buf reader') < length (rd_buf reader)"
proof (induction lineBytes reader rule: readFragments.induct)
  case (1 lineBytes reader)
  obtain ln isPrefix err r1 where rl: "ReadLine reader = ((ln, isPrefix, err), r1)"
    by (metis prod_cases3 surj_pair)
  show ?case
  proof (cases err)
    case (Some e)
    with rl "1.prems" show ?thesis by (simp add: readFragments.simps [of lineBytes reader])
  next
    case None
    with rl have c: "length (rd_buf r1) < length (rd_buf reader)"
      by (simp add: ReadLine_consumes)
    show ?thesis
    proof (cases isPrefix)
      case False
      with rl None "1.prems" c show ?thesis
        by (simp add: readFragments.simps [of lineBytes reader])
    next
      case True
      with rl None "1.prems" have "readFragments (lineBytes @ ln) r1 = (Inl l, reader')"
        by (simp add: readFragments.simps [of lineBytes reader])
      with "1.IH" [OF rl [symmetric] refl refl None] True
      have "length (rd_buf reader') < length (rd_buf r1)" by simp
      with c show ?thesis by simp
    qed
  qed
qed

text \<open>
  The outer loop of \<open>Load\<close>, from \<open>lineBytes = lineBytes[:0]\<close> to the assignment to
  \<open>ifs.data\<close>. It returns the error of \<open>Load\<close> and the store as the loop left it.
\<close>

function loadLines :: "IniFileSettings \<Rightarrow> Reader \<Rightarrow> error option \<times> IniFileSettings" where
  "loadLines ifs reader =
     (case readFragments [] reader of
        (Inr err, reader') \<Rightarrow>
          if err = EOF then (None, ifs) else (Some (wrapError err), ifs)
      | (Inl lineStr, reader') \<Rightarrow>
          (let assignIndex = Index lineStr [EQ]
           in if assignIndex = - 1 then (Some (newError missingAssignMsg), ifs)
              else
                (let key = TrimSpace (take (nat assignIndex) lineStr);
                     val = TrimSpace (drop (nat (assignIndex + 1)) lineStr)
                 in loadLines (ifs\<lparr>data := (data ifs)(key \<mapsto> val)\<rparr>) reader')))"
  by pat_completeness auto
termination
proof (relation "measure (\<lambda>(ifs, reader). length (rd_buf reader))")
  show "wf (measure (\<lambda>(ifs, reader). length (rd_buf reader)))" by simp
next
  fix ifs :: IniFileSettings and reader x1 reader' lineStr assignIndex key val
  assume "(x1, reader') = readFragments [] reader" "x1 = Inl lineStr"
  then have "readFragments [] reader = (Inl lineStr, reader')" by simp
  then have "length (rd_buf reader') < length (rd_buf reader)"
    by (rule readFragments_consumes)
  then show "((ifs\<lparr>data := (data ifs)(key \<mapsto> val)\<rparr>, reader'), (ifs, reader))
      \<in> measure (\<lambda>(ifs, reader). length (rd_buf reader))" by simp
qed

declare loadLines.simps [simp del]

subsection \<open>The file of the store\<close>

text \<open>
  A state is the store together with the file system. \<open>Load\<close> and \<open>Save\<close> return
  their error (\<open>None\<close> is \<open>nil\<close>) and the state they leave.
\<close>

type_synonym state = "IniFileSettings \<times> filesys"

definition filePath :: "app_env \<Rightarrow> string \<times> error option" where
  "filePath env =
     (case AppDataPath env of
        (appDataPath, Some err) \<Rightarrow> ([], Some err)
      | (appDataPath, None) \<Rightarrow>
          (path_Join env [appDataPath, OrganizationName env, ProductName env, ''settings.ini''],
           None))"

text \<open>
  \<open>os.Stat\<close> failing for any reason makes \<open>fileExists\<close> answer \<open>(false, nil)\<close>; the
  source marks this with a FIXME.
\<close>

definition fileExists :: "app_env \<Rightarrow> os_faults \<Rightarrow> filesys \<Rightarrow> bool \<times> error option" where
  "fileExists env flt fs =
     (case filePath env of
        (p, Some err) \<Rightarrow> (False, Some err)
      | (p, None) \<Rightarrow>
          (case Stat flt fs p of
             Some err \<Rightarrow> (False, None)
           | None \<Rightarrow> (True, None)))"

text \<open>
  \<open>withFile\<close> does not look at the error of \<open>filePath\<close>: on failure it goes on with
  the empty path that \<open>filePath\<close> returned.
\<close>

definition withFile ::
  "app_env \<Rightarrow> os_faults \<Rightarrow> open_flag set \<Rightarrow> (string \<Rightarrow> state \<Rightarrow> error option \<times> state) \<Rightarrow>
   state \<Rightarrow> error option \<times> state" where
  "withFile env flt flags f st =
     (let p = fst (filePath env);
          dirPath = fst (path_Split p)
      in case MkdirAll flt dirPath of
           Some err \<Rightarrow> (Some (wrapError (Errno err)), st)
         | None \<Rightarrow>
            (case OpenFile flt (snd st) p flags of
               Inl err \<Rightarrow> (Some (wrapError (Errno err)), st)
             | Inr (file, fs') \<Rightarrow> f file (fst st, fs')))"

definition Load :: "app_env \<Rightarrow> os_faults \<Rightarrow> state \<Rightarrow> error option \<times> state" where
  "Load env flt st =
     (case fileExists env flt (snd st) of
        (exists, Some err) \<Rightarrow> (Some err, st)
      | (exists, None) \<Rightarrow>
          if \<not> exists then (None, st)
          else withFile env flt O_RDONLY
                 (\<lambda>file (ifs, fs).
                    (case loadLines ifs (NewReader flt fs file) of
                       (err, ifs') \<Rightarrow> (err, (ifs', fs))))
                 st)"

subsection \<open>Save\<close>

text \<open>
  \<open>for key, val := range ifs.data\<close> visits every entry once, in an order Go leaves
  open. The order is an argument of the model: \<open>rangeOrder\<close> says that a list of keys
  is a possible order, \<open>rangeEntries\<close> gives the entries in that order.
\<close>

definition rangeOrder :: "IniFileSettings \<Rightarrow> string list \<Rightarrow> bool" where
  "rangeOrder ifs order = (distinct order \<and> set order = dom (data ifs))"

definition rangeEntries :: "IniFileSettings \<Rightarrow> string list \<Rightarrow> (string \<times> string) list" where
  "rangeEntries ifs order =
     concat (map (\<lambda>key. case data ifs key of None \<Rightarrow> [] | Some val \<Rightarrow> [(key, val)]) order)"

text \<open>
  The loop of \<open>Save\<close>: \<open>out\<close> collects the bytes handed to the buffered writer, \<open>i\<close>
  counts the calls of \<open>WriteString\<close>. It ends with the failure of a \<open>WriteString\<close>, if
  any, and the bytes handed over so far.
\<close>

fun writeEntries :: "os_faults \<Rightarrow> nat \<Rightarrow> (string \<times> string) list \<Rightarrow> string \<Rightarrow> errno option \<times> string" where
  "writeEntries flt i [] out = (None, out)"
| "writeEntries flt i ((key, val) # es) out =
     (let line = key @ [EQ] @ val @ [LF]
      in case writeErr flt i of
           Some err \<Rightarrow> (Some err, out @ line)
         | None \<Rightarrow> writeEntries flt (Suc i) es (out @ line))"

text \<open>
  When a write fails the file holds the first \<open>written flt\<close> of the bytes handed
  over. The error of \<open>WriteString\<close> is wrapped, the error of \<open>Flush\<close> is returned as
  it is.
\<close>

definition Save :: "app_env \<Rightarrow> os_faults \<Rightarrow> string list \<Rightarrow> state \<Rightarrow> error option \<times> state" where
  "Save env flt order st =
     withFile env flt {O_CREATE, O_TRUNC, O_WRONLY}
       (\<lambda>file (ifs, fs).
          (case writeEntries flt 0 (rangeEntries ifs order) [] of
             (Some err, out) \<Rightarrow>
               (Some (wrapError (Errno err)), (ifs, fs(file \<mapsto> take (written flt) out)))
           | (None, out) \<Rightarrow>
               (case flushErr flt of
                  Some err \<Rightarrow> (Some (rawError (Errno err)), (ifs, fs(file \<mapsto> take (written flt) out)))
                | None \<Rightarrow> (None, (ifs, fs(file \<mapsto> out))))))
       st"

subsection \<open>Notions for stating the properties of Load and Save\<close>

text \<open>
  The lines that the inner loop of \<open>Load\<close> hands to the outer loop, in order, until
  the reader reports an error (\<open>os.EOF\<close> or a failure).
\<close>

function deliveredLines :: "Reader \<Rightarrow> string list" where
  "deliveredLines reader =
     (case readFragments [] reader of
        (Inr err, reader') \<Rightarrow> []
      | (Inl lineStr, reader') \<Rightarrow> lineStr # deliveredLines reader')"
  by pat_completeness auto
termination
proof (relation "measure (\<lambda>reader. length (rd_buf reader))")
  show "wf (measure (\<lambda>reader. length (rd_buf reader)))" by simp
next
  fix reader x1 reader' lineStr
  assume "(x1, reader') = readFragments [] reader" "x1 = Inl lineStr"
  then have "readFragments [] reader = (Inl lineStr, reader')" by simp
  then have "length (rd_buf reader') < length (rd_buf reader)"
    by (rule readFragments_consumes)
  then show "(reader', reader) \<in> measure (\<lambda>reader. length (rd_buf reader))" by simp
qed

declare deliveredLines.simps [simp del]

text \<open>
  The assignment that the outer loop makes for a line with a \<open>=\<close> (lines 117 to 125
  of the source without the error branch).
\<close>

definition storeLine :: "IniFileSettings \<Rightarrow> string \<Rightarrow> IniFileSettings" where
  "storeLine ifs lineStr =
     (let assignIndex = Index lineStr [EQ];
          key = TrimSpace (take (nat assignIndex) lineStr);
          val = TrimSpace (drop (nat (assignIndex + 1)) lineStr)
      in ifs\<lparr>data := (data ifs)(key \<mapsto> val)\<rparr>)"

text \<open>
  The key and the value of that assignment (lines 122 and 123 of the source).
\<close>

definition lineKey :: "string \<Rightarrow> string" where
  "lineKey lineStr = TrimSpace (take (nat (Index lineStr [EQ])) lineStr)"

definition lineVal :: "string \<Rightarrow> string" where
  "lineVal lineStr = TrimSpace (drop (nat (Index lineStr [EQ] + 1)) lineStr)"

text \<open>
  The lines of a file in the usual sense: the byte sequences between line feeds, empty
  ones included; what follows the last line feed is a line if it is not empty.
\<close>

function fileLines :: "string \<Rightarrow> string list" where
  "fileLines c =
     (if c = [] then []
      else takeWhile (\<lambda>x. x \<noteq> LF) c #
           fileLines (drop (Suc (length (takeWhile (\<lambda>x. x \<noteq> LF) c))) c))"
  by pat_completeness auto
termination
  by (relation "measure length") auto

declare fileLines.simps [simp del]

text \<open>
  What \<open>ReadLine\<close> does to the end of a line: one trailing carriage return goes.
  \<open>assembled\<close> is the line that the inner loop puts together from the fragments of
  a line ending in a line feed: when the length of the line is a multiple of the buffer
  size, its last fragment is empty and a carriage return at the end of the fragment
  before stays.
\<close>

definition stripCR :: "string \<Rightarrow> string" where
  "stripCR l = (if l \<noteq> [] \<and> last l = CR then butlast l else l)"

definition assembled :: "string \<Rightarrow> string" where
  "assembled l = (if length l mod defaultBufSize = 0 then l else stripCR l)"

text \<open>The bytes that \<open>Save\<close> writes for a list of entries.\<close>

definition savedBytes :: "(string \<times> string) list \<Rightarrow> string" where
  "savedBytes es = concat (map (\<lambda>(key, val). key @ [EQ] @ val @ [LF]) es)"

subsection \<open>Sequences of operations\<close>

text \<open>
  The four operations of the store. A \<open>Load\<close> or \<open>Save\<close> comes with what the operating
  system does during the call, a \<open>Save\<close> also with the order in which it visits the
  entries. \<open>run\<close> performs a sequence of operations, whatever each one returns.
\<close>

datatype op = OpGet string | OpPut string string | OpLoad os_faults | OpSave os_faults "string list"

fun step :: "app_env \<Rightarrow> state \<Rightarrow> op \<Rightarrow> state" where
  "step env st (OpGet key) = st"
| "step env st (OpPut key val) = (snd (Put (fst st) key val), snd st)"
| "step env st (OpLoad flt) = snd (Load env flt st)"
| "step env st (OpSave flt order) = snd (Save env flt order st)"

definition run :: "app_env \<Rightarrow> state \<Rightarrow> op list \<Rightarrow> state" where
  "run env st ops = foldl (step env) st ops"

text \<open>
  The invariant of the specification: no key and no value contains a carriage return or
  a line feed, and no key contains \<open>=\<close>. \<open>validStoreLF\<close> is the part of it that does
  not speak of carriage returns.
\<close>

definition validStore :: "IniFileSettings \<Rightarrow> bool" where
  "validStore ifs =
     (\<forall>key val. data ifs key = Some val \<longrightarrow>
        EQ \<notin> set key \<and> CR \<notin> set key \<and> LF \<notin> set key \<and> CR \<notin> set val \<and> LF \<notin> set val)"

definition validStoreLF :: "IniFileSettings \<Rightarrow> bool" where
  "validStoreLF ifs =
     (\<forall>key val. data ifs key = Some val \<longrightarrow> EQ \<notin> set key \<and> LF \<notin> set key \<and> LF \<notin> set val)"

text \<open>
  A file in which carriage returns stand at the ends of lines only: every carriage
  return is the last byte or is followed by a line feed.
\<close>

fun crAtLineEnds :: "string \<Rightarrow> bool" where
  "crAtLineEnds [] = True"
| "crAtLineEnds [x] = True"
| "crAtLineEnds (x # y # s) = ((x = CR \<longrightarrow> y = LF) \<and> crAtLineEnds (y # s))"

definition settingsFileOK :: "app_env \<Rightarrow> filesys \<Rightarrow> bool" where
  "settingsFileOK env fs =
     (case fs (fst (filePath env)) of None \<Rightarrow> True | Some c \<Rightarrow> crAtLineEnds c)"

subsection \<open>An application, for the examples\<close>

definition exampleEnv :: app_env where
  "exampleEnv = \<lparr>AppDataPath = (''/appdata'', None), OrganizationName = ''lxn'',
     ProductName = ''walk'',
     path_Join = (\<lambda>elems. foldr (\<lambda>e p. if p = [] then e else e @ ''/'' @ p) elems [])\<rparr>"

definition examplePath :: string where
  "examplePath = ''/appdata/lxn/walk/settings.ini''"

definition exampleStore :: IniFileSettings where
  "exampleStore = \<lparr>data = [''name'' \<mapsto> ''walk'', ''version'' \<mapsto> ''1.0'']\<rparr>"

section \<open>The tooltip (ToolTip)\<close>

text \<open>
  A Go call returns, or it panics. A window is known by its handle; of a widget the
  tooltip uses the handle and the handle of the parent, if there is one.
\<close>

datatype 'a outcome = Returns 'a | Panics string

record ToolTip =
  tt_hWnd :: nat

record Widget =
  w_hWnd :: nat
  w_Parent :: "nat option"

record TOOLINFO =
  CbSize :: nat
  Hwnd :: nat
  UFlags :: nat
  UId :: nat
  LpszText :: string

text \<open>
  The window system is a parameter: the size of the \<open>TOOLINFO\<close> structure and the
  answer of \<open>SendMessage\<close> to a message with a \<open>TOOLINFO\<close> argument. The constants
  are those of the Windows headers.
\<close>

record win_env =
  sizeofTOOLINFO :: nat
  SendMessage :: "nat \<Rightarrow> nat \<Rightarrow> nat \<Rightarrow> TOOLINFO \<Rightarrow> nat"

definition FALSE :: nat where
  "FALSE = 0"

definition TTF_IDISHWND :: nat where
  "TTF_IDISHWND = 1"

definition TTF_SUBCLASS :: nat where
  "TTF_SUBCLASS = 16"

definition TTM_ADDTOOL :: nat where
  "TTM_ADDTOOL = 1024 + 50"

text \<open>\<open>TTF_IDISHWND | TTF_SUBCLASS\<close>: the two flags are different bits, so the bitwise or is their sum.\<close>

definition AddWidget :: "win_env \<Rightarrow> ToolTip \<Rightarrow> Widget \<Rightarrow> string \<Rightarrow> error option outcome" where
  "AddWidget win tt widget text =
     (let ti = \<lparr>CbSize = sizeofTOOLINFO win,
                Hwnd = (case w_Parent widget of None \<Rightarrow> 0 | Some h \<Rightarrow> h),
                UFlags = TTF_IDISHWND + TTF_SUBCLASS,
                UId = w_hWnd widget,
                LpszText = text\<rparr>
      in if FALSE = SendMessage win (tt_hWnd tt) TTM_ADDTOOL 0 ti
         then Returns (Some (newError ''TTM_ADDTOOL failed''))
         else Returns None)"

definition RemoveWidget :: "ToolTip \<Rightarrow> Widget \<Rightarrow> error option outcome" where
  "RemoveWidget tt widget = Panics ''not implemented''"

section \<open>Properties\<close>

subsection \<open>Searching a string\<close>

lemma IndexAny_ge: "- 1 \<le> IndexAny s chars"
  by (induction s) (auto simp: Let_def)

lemma IndexAny_found: "(IndexAny s chars > - 1) = (\<exists>c \<in> set s. c \<in> set chars)"
proof (induction s)
  case Nil
  show ?case by simp
next
  case (Cons c s)
  have "- 1 \<le> IndexAny s chars" by (rule IndexAny_ge)
  with Cons show ?case by (auto simp: Let_def)
qed

subsection \<open>Put and Get\<close>

lemma Put_cases:
  "Put ifs key val =
     (if EQ \<in> set key \<or> CR \<in> set key \<or> LF \<in> set key \<or> CR \<in> set val \<or> LF \<in> set val
      then (Some (newError invalidCharsMsg), ifs)
      else (None, ifs\<lparr>data := (data ifs)(key \<mapsto> val)\<rparr>))"
proof -
  have k: "(IndexAny key [EQ, CR, LF] > - 1) = (EQ \<in> set key \<or> CR \<in> set key \<or> LF \<in> set key)"
    by (auto simp: IndexAny_found)
  have v: "(IndexAny val [CR, LF] > - 1) = (CR \<in> set val \<or> LF \<in> set val)"
    by (auto simp: IndexAny_found)
  show ?thesis
    unfolding Put_def k v by simp
qed

text \<open>
  C1: for every key containing none of \<open>=\<close>, CR, LF and every value containing
  neither CR nor LF, \<open>Put(key, value)\<close> on any store succeeds, and an immediately
  following \<open>Get(key)\<close> on that store returns that value with found = true.
\<close>

theorem Put_then_Get:
  assumes "EQ \<notin> set key" and "CR \<notin> set key" and "LF \<notin> set key"
    and "CR \<notin> set val" and "LF \<notin> set val"
  shows "fst (Put ifs key val) = None \<and> Get (snd (Put ifs key val)) key = (val, True)"
proof -
  have k: "\<not> IndexAny key [EQ, CR, LF] > - 1"
    using assms by (auto simp: IndexAny_found)
  have v: "\<not> IndexAny val [CR, LF] > - 1"
    using assms by (auto simp: IndexAny_found)
  from k v show ?thesis by (simp add: Put_def Get_def)
qed

theorem Put_then_Get_witness:
  "EQ \<notin> set ''name'' \<and> CR \<notin> set ''name'' \<and> LF \<notin> set ''name'' \<and>
   CR \<notin> set ''walk=1.0'' \<and> LF \<notin> set ''walk=1.0'' \<and>
   fst (Put NewIniFileSettings ''name'' ''walk=1.0'') = None \<and>
   Get (snd (Put NewIniFileSettings ''name'' ''walk=1.0'')) ''name'' = (''walk=1.0'', True)"
proof -
  have h: "EQ \<notin> set ''name''" "CR \<notin> set ''name''" "LF \<notin> set ''name''"
    "CR \<notin> set ''walk=1.0''" "LF \<notin> set ''walk=1.0''"
    by (simp_all add: EQ_def CR_def LF_def)
  from h Put_then_Get [OF h, of NewIniFileSettings] show ?thesis by simp
qed

text \<open>
  C2: for every key and value, \<open>Put(key, value)\<close> fails with InvalidFormat exactly
  when the key contains any of \<open>=\<close>, CR, or LF, or the value contains CR or LF; in
  all other cases it succeeds (and stores the entry), and it has no other failure mode.
\<close>

theorem Put_fails_iff:
  "Put ifs key val =
     (if EQ \<in> set key \<or> CR \<in> set key \<or> LF \<in> set key \<or> CR \<in> set val \<or> LF \<in> set val
      then (Some InvalidFormat, ifs)
      else (None, ifs\<lparr>data := (data ifs)(key \<mapsto> val)\<rparr>))"
  unfolding InvalidFormat_def by (rule Put_cases)

theorem Put_fails_iff_witness:
  "Put NewIniFileSettings ''a=b'' ''x'' = (Some InvalidFormat, NewIniFileSettings) \<and>
   Put NewIniFileSettings ''a'' [CHR ''x'', CR, LF, CHR ''y''] = (Some InvalidFormat, NewIniFileSettings) \<and>
   fst (Put NewIniFileSettings ''a'' ''x=y'') = None"
  using Put_fails_iff [of NewIniFileSettings "''a=b''" "''x''"]
    Put_fails_iff [of NewIniFileSettings "''a''" "[CHR ''x'', CR, LF, CHR ''y'']"]
    Put_fails_iff [of NewIniFileSettings "''a''" "''x=y''"]
  by (simp add: EQ_def CR_def LF_def)

subsection \<open>The separator of a line\<close>

lemma Index_ge: "- 1 \<le> Index s sep"
  by (induction s) (auto simp: Let_def)

lemma Index_EQ_split:
  "EQ \<notin> set k \<Longrightarrow> Index (k @ EQ # v) [EQ] = int (length k)"
  by (induction k) (auto simp: Let_def)

lemma Index_EQ_none: "EQ \<notin> set s \<Longrightarrow> Index s [EQ] = - 1"
  by (induction s) (auto simp: Let_def)

lemma Index_EQ_missing: "(Index s [EQ] = - 1) = (EQ \<notin> set s)"
proof
  assume "Index s [EQ] = - 1"
  show "EQ \<notin> set s"
  proof
    assume "EQ \<in> set s"
    then obtain k v where "s = k @ EQ # v" "EQ \<notin> set k"
      by (auto dest: split_list_first)
    then have "Index s [EQ] = int (length k)" by (simp add: Index_EQ_split)
    with \<open>Index s [EQ] = - 1\<close> show False by simp
  qed
next
  assume "EQ \<notin> set s"
  then show "Index s [EQ] = - 1" by (rule Index_EQ_none)
qed

lemma loadLines_line:
  assumes "readFragments [] reader = (Inl (k @ EQ # v), reader')" and "EQ \<notin> set k"
  shows "loadLines ifs reader =
         loadLines (ifs\<lparr>data := (data ifs)(TrimSpace k \<mapsto> TrimSpace v)\<rparr>) reader'"
proof -
  have i: "Index (k @ EQ # v) [EQ] = int (length k)"
    using assms(2) by (rule Index_EQ_split)
  have n: "nat (int (length k) + 1) = Suc (length k)" by simp
  show ?thesis
    by (subst loadLines.simps) (simp add: assms(1) i n Let_def)
qed

lemma loadLines_bad:
  assumes "readFragments [] reader = (Inl l, reader')" and "EQ \<notin> set l"
  shows "loadLines ifs reader = (Some ParseError, ifs)"
  using assms
  by (subst loadLines.simps) (simp add: Index_EQ_none ParseError_def)

lemma loadLines_end:
  assumes "readFragments [] reader = (Inr e, reader')"
  shows "loadLines ifs reader = (if e = EOF then None else Some (wrapError e), ifs)"
  using assms
  by (subst loadLines.simps) simp

subsection \<open>One call of ReadLine\<close>

lemma LF_neq_CR: "LF \<noteq> CR" by (simp add: LF_def CR_def)

lemma takeWhile_all: "x \<notin> set l \<Longrightarrow> takeWhile (\<lambda>c. c \<noteq> x) l = l"
  by (induction l) auto

lemma ReadLine_short:
  assumes "LF \<notin> set l" and "length l < defaultBufSize" and "rd_buf b = l @ LF # rest"
  shows "ReadLine b = ((stripCR l, False, None), b\<lparr>rd_buf := rest\<rparr>)"
proof -
  let ?w = "take defaultBufSize (rd_buf b)"
  have w: "?w = l @ take (defaultBufSize - length l) (LF # rest)"
    using assms by simp
  from assms(2) obtain m where m: "defaultBufSize - length l = Suc m"
    by (cases "defaultBufSize - length l") auto
  have tw: "takeWhile (\<lambda>c. c \<noteq> LF) ?w = l"
    using assms(1) by (auto simp: w m takeWhile_tail)
  have lw: "length l < length ?w"
    by (simp add: w m)
  have rs: "ReadSlice b LF = ((l @ [LF], None), b\<lparr>rd_buf := rest\<rparr>)"
    unfolding ReadSlice_def Let_def tw using lw by (simp add: assms(3))
  show ?thesis
    unfolding ReadLine_def rs by (simp add: stripCR_def)
qed

lemma ReadLine_full:
  assumes "LF \<notin> set (take defaultBufSize (rd_buf b))" and "defaultBufSize \<le> length (rd_buf b)"
  shows "ReadLine b =
    ((take defaultBufSize (rd_buf b), True, None), b\<lparr>rd_buf := drop defaultBufSize (rd_buf b)\<rparr>)"
proof -
  have tw: "takeWhile (\<lambda>c. c \<noteq> LF) (take defaultBufSize (rd_buf b)) = take defaultBufSize (rd_buf b)"
    using assms(1) by (rule takeWhile_all)
  have rs: "ReadSlice b LF =
    ((take defaultBufSize (rd_buf b), Some ErrBufferFull), b\<lparr>rd_buf := drop defaultBufSize (rd_buf b)\<rparr>)"
    unfolding ReadSlice_def Let_def tw using assms(2) by simp
  show ?thesis
    unfolding ReadLine_def rs by simp
qed

lemma ReadLine_tail:
  assumes "LF \<notin> set (rd_buf b)" and "rd_buf b \<noteq> []" and "length (rd_buf b) < defaultBufSize"
  shows "ReadLine b = ((stripCR (rd_buf b), False, None), b\<lparr>rd_buf := []\<rparr>)"
proof -
  have tk: "take defaultBufSize (rd_buf b) = rd_buf b" using assms(3) by simp
  have tw: "takeWhile (\<lambda>c. c \<noteq> LF) (rd_buf b) = rd_buf b"
    using assms(1) by (rule takeWhile_all)
  have rs: "ReadSlice b LF = ((rd_buf b, Some (readError b)), b\<lparr>rd_buf := []\<rparr>)"
    unfolding ReadSlice_def Let_def tk tw using assms(3) by simp
  have ne: "readError b \<noteq> ErrBufferFull"
    by (simp add: readError_def split: option.splits)
  have nl: "last (rd_buf b) \<noteq> LF"
    using assms(1,2) last_in_set by metis
  show ?thesis
    unfolding ReadLine_def rs using ne nl assms(2) by (simp add: stripCR_def)
qed

lemma ReadLine_end:
  assumes "rd_buf b = []"
  shows "ReadLine b = (([], False, Some (readError b)), b\<lparr>rd_buf := []\<rparr>)"
proof -
  have ne: "readError b \<noteq> ErrBufferFull"
    by (simp add: readError_def split: option.splits)
  have pos: "\<not> defaultBufSize \<le> 0" by (simp add: defaultBufSize_def)
  have rs: "ReadSlice b LF = (([], Some (readError b)), b\<lparr>rd_buf := []\<rparr>)"
    unfolding ReadSlice_def Let_def using pos by (simp add: assms)
  show ?thesis
    unfolding ReadLine_def rs using ne by simp
qed

subsection \<open>The inner loop: a line from its fragments\<close>

lemma stripCR_append: "ys \<noteq> [] \<Longrightarrow> stripCR (xs @ ys) = xs @ stripCR ys"
  by (simp add: stripCR_def butlast_append)

lemma assembled_chunk:
  assumes "defaultBufSize \<le> length l"
  shows "take defaultBufSize l @ assembled (drop defaultBufSize l) = assembled l"
proof -
  have m: "(length l - defaultBufSize) mod defaultBufSize = length l mod defaultBufSize"
    using assms by (simp add: le_mod_geq)
  show ?thesis
  proof (cases "length l mod defaultBufSize = 0")
    case True
    with m show ?thesis by (simp add: assembled_def)
  next
    case False
    with m have "drop defaultBufSize l \<noteq> []" by auto
    then have "stripCR (take defaultBufSize l @ drop defaultBufSize l) =
        take defaultBufSize l @ stripCR (drop defaultBufSize l)"
      by (rule stripCR_append)
    with False m show ?thesis by (simp add: assembled_def)
  qed
qed

lemma readFragments_terminated:
  "LF \<notin> set l \<Longrightarrow> rd_buf b = l @ LF # rest \<Longrightarrow>
   readFragments acc b = (Inl (acc @ assembled l), b\<lparr>rd_buf := rest\<rparr>)"
proof (induction "length l" arbitrary: l acc b rule: less_induct)
  case less
  show ?case
  proof (cases "length l < defaultBufSize")
    case True
    have rl: "ReadLine b = ((stripCR l, False, None), b\<lparr>rd_buf := rest\<rparr>)"
      using less.prems True by (simp add: ReadLine_short)
    have a: "assembled l = stripCR l"
      using True by (auto simp: assembled_def stripCR_def)
    show ?thesis
      by (subst readFragments.simps) (simp add: rl a)
  next
    case False
    then have ge: "defaultBufSize \<le> length l" by simp
    have pos: "0 < defaultBufSize" by (simp add: defaultBufSize_def)
    have tk: "take defaultBufSize (rd_buf b) = take defaultBufSize l"
      using ge less.prems(2) by simp
    have dr: "drop defaultBufSize (rd_buf b) = drop defaultBufSize l @ LF # rest"
      using ge less.prems(2) by simp
    have nolf: "LF \<notin> set (take defaultBufSize (rd_buf b))"
      using less.prems(1) unfolding tk by (auto dest: in_set_takeD)
    have rl: "ReadLine b =
        ((take defaultBufSize l, True, None), b\<lparr>rd_buf := drop defaultBufSize l @ LF # rest\<rparr>)"
      using ReadLine_full [OF nolf] ge less.prems(2) by (simp add: tk dr)
    have step: "readFragments acc b =
        readFragments (acc @ take defaultBufSize l) (b\<lparr>rd_buf := drop defaultBufSize l @ LF # rest\<rparr>)"
      by (subst readFragments.simps) (simp add: rl)
    have shorter: "length (drop defaultBufSize l) < length l"
      using ge pos by simp
    have nolf': "LF \<notin> set (drop defaultBufSize l)"
      using less.prems(1) by (auto dest: in_set_dropD)
    have ih: "readFragments (acc @ take defaultBufSize l)
          (b\<lparr>rd_buf := drop defaultBufSize l @ LF # rest\<rparr>) =
        (Inl ((acc @ take defaultBufSize l) @ assembled (drop defaultBufSize l)),
         b\<lparr>rd_buf := drop defaultBufSize l @ LF # rest\<rparr>\<lparr>rd_buf := rest\<rparr>)"
      by (rule less.hyps [OF shorter nolf']) simp
    show ?thesis
      unfolding step ih using assembled_chunk [OF ge] by simp
  qed
qed

lemma readFragments_unterminated:
  "LF \<notin> set l \<Longrightarrow> rd_buf b = l \<Longrightarrow>
   readFragments acc b =
     (if length l mod defaultBufSize = 0 then (Inr (readError b), b\<lparr>rd_buf := []\<rparr>)
      else (Inl (acc @ stripCR l), b\<lparr>rd_buf := []\<rparr>))"
proof (induction "length l" arbitrary: l acc b rule: less_induct)
  case less
  have pos: "0 < defaultBufSize" by (simp add: defaultBufSize_def)
  show ?case
  proof (cases "length l < defaultBufSize")
    case True
    show ?thesis
    proof (cases "l = []")
      case True
      with less.prems have rl: "ReadLine b = (([], False, Some (readError b)), b\<lparr>rd_buf := []\<rparr>)"
        by (simp add: ReadLine_end)
      show ?thesis
        by (subst readFragments.simps) (simp add: rl True)
    next
      case False
      with True less.prems have rl: "ReadLine b = ((stripCR l, False, None), b\<lparr>rd_buf := []\<rparr>)"
        using ReadLine_tail [of b] by simp
      from False True have "length l mod defaultBufSize \<noteq> 0" by simp
      then show ?thesis
        by (subst readFragments.simps) (simp add: rl)
    qed
  next
    case False
    then have ge: "defaultBufSize \<le> length l" by simp
    have nolf: "LF \<notin> set (take defaultBufSize (rd_buf b))"
      using less.prems by (auto dest: in_set_takeD)
    have rl: "ReadLine b =
        ((take defaultBufSize l, True, None), b\<lparr>rd_buf := drop defaultBufSize l\<rparr>)"
      using ReadLine_full [OF nolf] ge less.prems(2) by simp
    have step: "readFragments acc b =
        readFragments (acc @ take defaultBufSize l) (b\<lparr>rd_buf := drop defaultBufSize l\<rparr>)"
      by (subst readFragments.simps) (simp add: rl)
    have shorter: "length (drop defaultBufSize l) < length l"
      using ge pos by simp
    have nolf': "LF \<notin> set (drop defaultBufSize l)"
      using less.prems(1) by (auto dest: in_set_dropD)
    have m: "(length l - defaultBufSize) mod defaultBufSize = length l mod defaultBufSize"
      using ge by (simp add: le_mod_geq)
    have ih: "readFragments (acc @ take defaultBufSize l) (b\<lparr>rd_buf := drop defaultBufSize l\<rparr>) =
        (if length (drop defaultBufSize l) mod defaultBufSize = 0
         then (Inr (readError (b\<lparr>rd_buf := drop defaultBufSize l\<rparr>)),
               b\<lparr>rd_buf := drop defaultBufSize l\<rparr>\<lparr>rd_buf := []\<rparr>)
         else (Inl ((acc @ take defaultBufSize l) @ stripCR (drop defaultBufSize l)),
               b\<lparr>rd_buf := drop defaultBufSize l\<rparr>\<lparr>rd_buf := []\<rparr>))"
      by (rule less.hyps [OF shorter nolf']) simp
    show ?thesis
    proof (cases "length l mod defaultBufSize = 0")
      case True
      with m show ?thesis unfolding step ih by (simp add: readError_def)
    next
      case False
      with m have "drop defaultBufSize l \<noteq> []" by auto
      then have "stripCR (take defaultBufSize l @ drop defaultBufSize l) =
          take defaultBufSize l @ stripCR (drop defaultBufSize l)"
        by (rule stripCR_append)
      with False m show ?thesis unfolding step ih by simp
    qed
  qed
qed

subsection \<open>The outer loop, by the lines delivered\<close>

lemma readFragments_rd_err:
  "readFragments acc b = (r, b') \<Longrightarrow> rd_err b' = rd_err b"
proof (induction acc b rule: readFragments.induct)
  case (1 lineBytes reader)
  obtain ln isPrefix err r1 where rl: "ReadLine reader = ((ln, isPrefix, err), r1)"
    by (metis prod_cases3 surj_pair)
  then have e1: "rd_err r1 = rd_err reader"
    by (auto simp: ReadLine_def ReadSlice_def Let_def split: if_splits)
  show ?case
  proof (cases err)
    case (Some e)
    with rl "1.prems" e1 show ?thesis
      by (auto simp: readFragments.simps [of lineBytes reader])
  next
    case None
    show ?thesis
    proof (cases isPrefix)
      case False
      with rl None "1.prems" e1 show ?thesis
        by (auto simp: readFragments.simps [of lineBytes reader])
    next
      case True
      with rl None "1.prems" have "readFragments (lineBytes @ ln) r1 = (r, b')"
        by (simp add: readFragments.simps [of lineBytes reader])
      with "1.IH" [OF rl [symmetric] refl refl None] True
      have "rd_err b' = rd_err r1" by simp
      with e1 show ?thesis by simp
    qed
  qed
qed

lemma readFragments_error:
  "readFragments acc b = (Inr e, b') \<Longrightarrow> e = readError b"
proof (induction acc b rule: readFragments.induct)
  case (1 lineBytes reader)
  obtain ln isPrefix err r1 where rl: "ReadLine reader = ((ln, isPrefix, err), r1)"
    by (metis prod_cases3 surj_pair)
  then have e1: "rd_err r1 = rd_err reader"
    by (auto simp: ReadLine_def ReadSlice_def Let_def split: if_splits)
  show ?case
  proof (cases err)
    case (Some e')
    with rl "1.prems" have "e' = e"
      by (auto simp: readFragments.simps [of lineBytes reader])
    moreover from rl Some have "e' = readError reader"
      by (auto simp: ReadLine_def ReadSlice_def Let_def split: if_splits)
    ultimately show ?thesis by simp
  next
    case None
    show ?thesis
    proof (cases isPrefix)
      case False
      with rl None "1.prems" show ?thesis
        by (auto simp: readFragments.simps [of lineBytes reader])
    next
      case True
      with rl None "1.prems" have "readFragments (lineBytes @ ln) r1 = (Inr e, b')"
        by (simp add: readFragments.simps [of lineBytes reader])
      with "1.IH" [OF rl [symmetric] refl refl None] True
      have "e = readError r1" by simp
      with e1 show ?thesis by (simp add: readError_def)
    qed
  qed
qed

lemma loadLines_store:
  assumes "readFragments [] reader = (Inl l, reader')" and "EQ \<in> set l"
  shows "loadLines ifs reader = loadLines (storeLine ifs l) reader'"
proof -
  have "Index l [EQ] \<noteq> - 1" using assms(2) by (simp add: Index_EQ_missing)
  then show ?thesis
    by (subst loadLines.simps) (simp add: assms(1) storeLine_def Let_def)
qed

lemma loadLines_delivered:
  "loadLines ifs b =
     (if \<exists>l \<in> set (deliveredLines b). EQ \<notin> set l then Some ParseError
      else if readError b = EOF then None else Some (wrapError (readError b)),
      foldl storeLine ifs (takeWhile (\<lambda>l. EQ \<in> set l) (deliveredLines b)))"
proof (induction ifs b rule: loadLines.induct)
  case (1 ifs reader)
  obtain r reader' where rf: "readFragments [] reader = (r, reader')"
    by (cases "readFragments [] reader")
  show ?case
  proof (cases r)
    case (Inr e)
    with rf have e: "e = readError reader" by (simp add: readFragments_error)
    from rf Inr have d: "deliveredLines reader = []"
      by (simp add: deliveredLines.simps [of reader])
    from rf Inr e d show ?thesis
      by (simp add: loadLines_end)
  next
    case (Inl l)
    with rf have d: "deliveredLines reader = l # deliveredLines reader'"
      by (simp add: deliveredLines.simps [of reader])
    show ?thesis
    proof (cases "EQ \<in> set l")
      case False
      with rf Inl d show ?thesis
        by (simp add: loadLines_bad)
    next
      case True
      then have ix: "Index l [EQ] \<noteq> - 1" by (simp add: Index_EQ_missing)
      from rf Inl True have step: "loadLines ifs reader = loadLines (storeLine ifs l) reader'"
        by (simp add: loadLines_store)
      from rf Inl have re: "readError reader' = readError reader"
        by (simp add: readError_def readFragments_rd_err)
      have sl: "storeLine ifs l = ifs\<lparr>data := (data ifs)
          (TrimSpace (take (nat (Index l [EQ])) l) \<mapsto> TrimSpace (drop (nat (Index l [EQ] + 1)) l))\<rparr>"
        by (simp add: storeLine_def Let_def)
      have ih: "loadLines (storeLine ifs l) reader' =
        (if \<exists>l \<in> set (deliveredLines reader'). EQ \<notin> set l then Some ParseError
         else if readError reader' = EOF then None else Some (wrapError (readError reader')),
         foldl storeLine (storeLine ifs l) (takeWhile (\<lambda>l. EQ \<in> set l) (deliveredLines reader')))"
        unfolding sl by (rule "1.IH" [OF rf [symmetric] Inl refl ix refl refl])
      show ?thesis
        unfolding step ih d re using True by simp
    qed
  qed
qed

subsection \<open>Delivered lines and the lines of the file\<close>

lemma fileLines_Nil: "fileLines [] = []"
  by (simp add: fileLines.simps)

lemma fileLines_terminated:
  assumes "LF \<notin> set l"
  shows "fileLines (l @ LF # rest) = l # fileLines rest"
proof -
  have "takeWhile (\<lambda>x. x \<noteq> LF) (l @ LF # rest) = l"
    using assms by (induction l) auto
  then show ?thesis
    by (subst fileLines.simps) simp
qed

lemma fileLines_unterminated:
  assumes "LF \<notin> set l" and "l \<noteq> []"
  shows "fileLines l = [l]"
proof -
  have tw: "takeWhile (\<lambda>x. x \<noteq> LF) l = l"
    using assms(1) by (rule takeWhile_all)
  show ?thesis
    by (subst fileLines.simps) (simp add: tw assms(2) fileLines_Nil)
qed

lemma deliveredLines_terminated:
  assumes "LF \<notin> set l" and "rd_buf b = l @ LF # rest"
  shows "deliveredLines b = assembled l # deliveredLines (b\<lparr>rd_buf := rest\<rparr>)"
  by (subst deliveredLines.simps) (simp add: readFragments_terminated [OF assms])

lemma deliveredLines_end:
  assumes "rd_buf b = []"
  shows "deliveredLines b = []"
proof -
  have "readFragments [] b = (Inr (readError b), b\<lparr>rd_buf := []\<rparr>)"
    using readFragments_unterminated [of "[]" b "[]"] assms by simp
  then show ?thesis
    by (subst deliveredLines.simps) simp
qed

lemma deliveredLines_unterminated:
  assumes "LF \<notin> set (rd_buf b)"
  shows "deliveredLines b =
    (if length (rd_buf b) mod defaultBufSize = 0 then [] else [stripCR (rd_buf b)])"
proof -
  have e: "deliveredLines (b\<lparr>rd_buf := []\<rparr>) = []"
    by (simp add: deliveredLines_end)
  show ?thesis
    by (subst deliveredLines.simps)
      (simp add: readFragments_unterminated [OF assms refl] e)
qed

lemma assembled_cases: "assembled s = s \<or> s = assembled s @ [CR]"
proof (cases "s \<noteq> [] \<and> last s = CR")
  case True
  then have "s = butlast s @ [CR]" by (metis append_butlast_last_id)
  with True show ?thesis by (auto simp: assembled_def stripCR_def)
next
  case False
  then show ?thesis by (auto simp: assembled_def stripCR_def)
qed

lemma stripCR_cases: "stripCR s = s \<or> s = stripCR s @ [CR]"
proof (cases "s \<noteq> [] \<and> last s = CR")
  case True
  then have "s = butlast s @ [CR]" by (metis append_butlast_last_id)
  with True show ?thesis by (auto simp: stripCR_def)
next
  case False
  then show ?thesis by (auto simp: stripCR_def)
qed

lemma delivered_of_file:
  "l \<in> set (deliveredLines b) \<Longrightarrow> \<exists>s \<in> set (fileLines (rd_buf b)). l = s \<or> s = l @ [CR]"
proof (induction "length (rd_buf b)" arbitrary: b rule: less_induct)
  case less
  show ?case
  proof (cases "LF \<in> set (rd_buf b)")
    case True
    then obtain s rest where sp: "rd_buf b = s @ LF # rest" "LF \<notin> set s"
      by (auto dest: split_list_first)
    have d: "deliveredLines b = assembled s # deliveredLines (b\<lparr>rd_buf := rest\<rparr>)"
      using sp by (simp add: deliveredLines_terminated)
    have f: "fileLines (rd_buf b) = s # fileLines rest"
      using sp by (simp add: fileLines_terminated)
    from less.prems d consider "l = assembled s" | "l \<in> set (deliveredLines (b\<lparr>rd_buf := rest\<rparr>))"
      by auto
    then show ?thesis
    proof cases
      case 1
      with assembled_cases [of s] f show ?thesis by auto
    next
      case 2
      have "length (rd_buf (b\<lparr>rd_buf := rest\<rparr>)) < length (rd_buf b)"
        using sp by simp
      from less.hyps [OF this 2] f show ?thesis by auto
    qed
  next
    case False
    with less.prems have ne: "length (rd_buf b) mod defaultBufSize \<noteq> 0" and l: "l = stripCR (rd_buf b)"
      by (auto simp: deliveredLines_unterminated split: if_splits)
    from ne have "rd_buf b \<noteq> []" by auto
    with False have "fileLines (rd_buf b) = [rd_buf b]"
      by (simp add: fileLines_unterminated)
    with l stripCR_cases [of "rd_buf b"] show ?thesis by auto
  qed
qed

lemma EQ_neq: "EQ \<noteq> CR" "EQ \<noteq> LF"
  by (simp_all add: EQ_def CR_def LF_def)

lemma delivered_have_assign:
  assumes "\<forall>s \<in> set (fileLines (rd_buf b)). EQ \<in> set s"
  shows "\<forall>l \<in> set (deliveredLines b). EQ \<in> set l"
proof
  fix l assume "l \<in> set (deliveredLines b)"
  then obtain s where s: "s \<in> set (fileLines (rd_buf b))" "l = s \<or> s = l @ [CR]"
    by (auto dest: delivered_of_file)
  with assms have "EQ \<in> set s" by simp
  with s(2) EQ_neq(1) show "EQ \<in> set l" by auto
qed

lemma deliveredLines_whole_lines:
  "rd_buf b = c \<Longrightarrow> c = [] \<or> last c = LF \<Longrightarrow> deliveredLines b = map assembled (fileLines c)"
proof (induction "length c" arbitrary: b c rule: less_induct)
  case less
  show ?case
  proof (cases "c = []")
    case True
    with less.prems(1) show ?thesis by (simp add: deliveredLines_end fileLines_Nil)
  next
    case False
    with less.prems(2) have "last c = LF" by simp
    with False have "LF \<in> set c" by (metis last_in_set)
    then obtain l rest where sp: "c = l @ LF # rest" "LF \<notin> set l"
      by (auto dest: split_list_first)
    have d: "deliveredLines b = assembled l # deliveredLines (b\<lparr>rd_buf := rest\<rparr>)"
      using sp less.prems(1) by (simp add: deliveredLines_terminated)
    have f: "fileLines c = l # fileLines rest"
      using sp by (simp add: fileLines_terminated)
    have r: "rest = [] \<or> last rest = LF"
      using sp(1) \<open>last c = LF\<close> by (cases "rest = []") auto
    have "length rest < length c" using sp by simp
    then have "deliveredLines (b\<lparr>rd_buf := rest\<rparr>) = map assembled (fileLines rest)"
      using r by (intro less.hyps) simp_all
    with d f show ?thesis by simp
  qed
qed

lemma assembled_has_assign: "(EQ \<in> set (assembled l)) = (EQ \<in> set l)"
  using assembled_cases [of l] EQ_neq(1)
  by (metis Un_iff empty_iff insert_iff list.simps(15) set_append list.set(1))

lemma Load_reads:
  assumes "filePath env = (p, None)" and "fs p = Some c"
    and "statErr flt = None" and "mkdirErr flt = None" and "openErr flt = None"
  shows "Load env flt (ifs, fs) =
    (fst (loadLines ifs (NewReader flt fs p)), (snd (loadLines ifs (NewReader flt fs p)), fs))"
proof -
  have ex: "fileExists env flt fs = (True, None)"
    using assms by (simp add: fileExists_def Stat_def)
  have op: "OpenFile flt fs p O_RDONLY = Inr (p, fs)"
    using assms by (simp add: OpenFile_def O_RDONLY_def)
  show ?thesis
    using assms(1,4) ex op
    by (simp add: Load_def withFile_def MkdirAll_def Let_def split: prod.splits)
qed

subsection \<open>TrimSpace returns a part of its argument; Save without faults\<close>

lemma TrimLeftSpace_suffix: "suffix (TrimLeftSpace s) s"
proof (induction s rule: TrimLeftSpace.induct)
  case (1 s)
  show ?case
  proof (cases "leadingSpace s")
    case None
    then show ?thesis by (simp add: TrimLeftSpace.simps [of s])
  next
    case (Some w)
    with "1.IH" have "suffix (TrimLeftSpace (drop (length w) s)) (drop (length w) s)" by simp
    then have "suffix (TrimLeftSpace (drop (length w) s)) s"
      by (rule suffix_order.trans) (rule suffix_drop)
    with Some show ?thesis by (simp add: TrimLeftSpace.simps [of s])
  qed
qed

lemma TrimRightSpace_prefix: "prefix (TrimRightSpace s) s"
proof (induction s rule: TrimRightSpace.induct)
  case (1 s)
  show ?case
  proof (cases "trailingSpace s")
    case None
    then show ?thesis by (simp add: TrimRightSpace.simps [of s])
  next
    case (Some w)
    with "1.IH" have "prefix (TrimRightSpace (take (length s - length w) s)) (take (length s - length w) s)"
      by simp
    then have "prefix (TrimRightSpace (take (length s - length w) s)) s"
      by (rule prefix_order.trans) (rule take_is_prefix)
    with Some show ?thesis by (simp add: TrimRightSpace.simps [of s])
  qed
qed

lemma set_TrimSpace: "set (TrimSpace s) \<subseteq> set s"
proof -
  have "set (TrimRightSpace (TrimLeftSpace s)) \<subseteq> set (TrimLeftSpace s)"
    using TrimRightSpace_prefix by (rule set_mono_prefix)
  moreover have "set (TrimLeftSpace s) \<subseteq> set s"
    using TrimLeftSpace_suffix by (rule set_mono_suffix)
  ultimately show ?thesis unfolding TrimSpace_def by blast
qed

lemma writeEntries_ok:
  "\<forall>i. writeErr flt i = None \<Longrightarrow> writeEntries flt i es out = (None, out @ savedBytes es)"
  by (induction es arbitrary: i out) (auto simp: savedBytes_def Let_def)

lemma Save_writes:
  assumes "mkdirErr flt = None" and "openErr flt = None"
    and "\<forall>i. writeErr flt i = None" and "flushErr flt = None"
  shows "Save env flt order (ifs, fs) =
    (None, (ifs, fs(fst (filePath env) \<mapsto> savedBytes (rangeEntries ifs order))))"
proof -
  have op: "OpenFile flt fs (fst (filePath env)) {O_CREATE, O_TRUNC, O_WRONLY} =
      Inr (fst (filePath env), fs(fst (filePath env) \<mapsto> []))"
    using assms(2) by (simp add: OpenFile_def split: option.splits)
  have w: "writeEntries flt 0 (rangeEntries ifs order) [] = (None, savedBytes (rangeEntries ifs order))"
    using writeEntries_ok [OF assms(3), of 0 "rangeEntries ifs order" "[]"] by simp
  show ?thesis
    using assms(1,4) op w
    by (simp add: Save_def withFile_def MkdirAll_def Let_def)
qed

subsection \<open>Loading what Save wrote\<close>

lemma assembled_noCR: "CR \<notin> set l \<Longrightarrow> assembled l = l"
  using assembled_cases [of l] by (metis in_set_conv_decomp)

lemma deliveredLines_saved:
  assumes "\<And>k v. (k, v) \<in> set es \<Longrightarrow> CR \<notin> set (k @ EQ # v) \<and> LF \<notin> set (k @ EQ # v)"
    and "rd_buf b = savedBytes es"
  shows "deliveredLines b = map (\<lambda>(k, v). k @ EQ # v) es"
  using assms
proof (induction es arbitrary: b)
  case Nil
  then show ?case by (simp add: savedBytes_def deliveredLines_end)
next
  case (Cons e es)
  obtain k v where e: "e = (k, v)" by (cases e)
  have "CR \<notin> set (k @ EQ # v) \<and> LF \<notin> set (k @ EQ # v)"
    by (rule Cons.prems(1)) (simp add: e)
  then have cr: "CR \<notin> set (k @ EQ # v)" and lf: "LF \<notin> set (k @ EQ # v)"
    by simp_all
  have buf: "rd_buf b = (k @ EQ # v) @ LF # savedBytes es"
    using Cons.prems(2) e by (simp add: savedBytes_def)
  have "deliveredLines b = assembled (k @ EQ # v) # deliveredLines (b\<lparr>rd_buf := savedBytes es\<rparr>)"
    using lf buf by (rule deliveredLines_terminated)
  moreover have "deliveredLines (b\<lparr>rd_buf := savedBytes es\<rparr>) = map (\<lambda>(k, v). k @ EQ # v) es"
  proof (rule Cons.IH)
    fix k' v' assume "(k', v') \<in> set es"
    then show "CR \<notin> set (k' @ EQ # v') \<and> LF \<notin> set (k' @ EQ # v')"
      by (intro Cons.prems(1)) simp
  qed simp
  ultimately show ?case
    using cr e by (simp add: assembled_noCR)
qed

lemma storeLine_entry:
  assumes "EQ \<notin> set k"
  shows "storeLine ifs (k @ EQ # v) = ifs\<lparr>data := (data ifs)(TrimSpace k \<mapsto> TrimSpace v)\<rparr>"
proof -
  have i: "Index (k @ EQ # v) [EQ] = int (length k)"
    using assms by (rule Index_EQ_split)
  have n: "nat (int (length k) + 1) = Suc (length k)" by simp
  show ?thesis
    by (simp add: storeLine_def Let_def i n)
qed

lemma foldl_storeLine_entries:
  assumes "\<And>k v. (k, v) \<in> set es \<Longrightarrow> EQ \<notin> set k \<and> TrimSpace k = k \<and> TrimSpace v = v"
  shows "foldl storeLine ifs (map (\<lambda>(k, v). k @ EQ # v) es) =
    ifs\<lparr>data := data ifs ++ map_of (rev es)\<rparr>"
  using assms
proof (induction es arbitrary: ifs)
  case Nil
  show ?case by simp
next
  case (Cons e es)
  obtain k v where e: "e = (k, v)" by (cases e)
  have kv: "EQ \<notin> set k \<and> TrimSpace k = k \<and> TrimSpace v = v"
    by (rule Cons.prems) (simp add: e)
  then have s: "storeLine ifs (k @ EQ # v) = ifs\<lparr>data := (data ifs)(k \<mapsto> v)\<rparr>"
    by (simp add: storeLine_entry)
  have "foldl storeLine (ifs\<lparr>data := (data ifs)(k \<mapsto> v)\<rparr>) (map (\<lambda>(k, v). k @ EQ # v) es) =
      ifs\<lparr>data := (data ifs)(k \<mapsto> v)\<rparr>\<lparr>data := data (ifs\<lparr>data := (data ifs)(k \<mapsto> v)\<rparr>) ++ map_of (rev es)\<rparr>"
  proof (rule Cons.IH)
    fix k' v' assume "(k', v') \<in> set es"
    then show "EQ \<notin> set k' \<and> TrimSpace k' = k' \<and> TrimSpace v' = v'"
      by (intro Cons.prems) simp
  qed
  then have "foldl storeLine (storeLine ifs (k @ EQ # v)) (map (\<lambda>(k, v). k @ EQ # v) es) =
      ifs\<lparr>data := (data ifs)(k \<mapsto> v) ++ map_of (rev es)\<rparr>"
    by (simp add: s)
  moreover have "data ifs ++ map_of (rev (e # es)) = (data ifs)(k \<mapsto> v) ++ map_of (rev es)"
    by (simp add: e map_add_assoc [symmetric])
  ultimately show ?case
    by (simp only: e list.map foldl_Cons prod.case)
qed

lemma rangeEntries_Cons:
  "rangeEntries ifs (key # order) =
     (case data ifs key of None \<Rightarrow> [] | Some val \<Rightarrow> [(key, val)]) @ rangeEntries ifs order"
  by (simp add: rangeEntries_def)

lemma rangeEntries_data: "(k, v) \<in> set (rangeEntries ifs order) \<Longrightarrow> data ifs k = Some v"
  by (induction order) (auto simp: rangeEntries_def split: option.splits)

lemma map_of_rangeEntries: "map_of (rev (rangeEntries ifs order)) = data ifs |` set order"
proof (induction order)
  case Nil
  show ?case by (simp add: rangeEntries_def)
next
  case (Cons key order)
  show ?case
  proof (cases "data ifs key")
    case None
    then have "rangeEntries ifs (key # order) = rangeEntries ifs order"
      by (simp add: rangeEntries_Cons)
    moreover from None have "data ifs |` set (key # order) = data ifs |` set order"
      by (auto simp: restrict_map_def fun_eq_iff)
    ultimately show ?thesis using Cons by simp
  next
    case (Some val)
    then have "map_of (rev (rangeEntries ifs (key # order))) =
        [key \<mapsto> val] ++ map_of (rev (rangeEntries ifs order))"
      by (simp add: rangeEntries_Cons)
    also have "\<dots> = [key \<mapsto> val] ++ (data ifs |` set order)"
      by (simp only: Cons)
    also from Some have "\<dots> = data ifs |` set (key # order)"
      by (auto simp: restrict_map_def map_add_def fun_eq_iff split: option.splits)
    finally show ?thesis .
  qed
qed

lemma map_of_rangeOrder:
  assumes "rangeOrder ifs order"
  shows "map_of (rev (rangeEntries ifs order)) = data ifs"
proof -
  have "data ifs |` dom (data ifs) = data ifs"
    by (rule ext) (auto simp: restrict_map_def domIff)
  with assms show ?thesis
    by (simp add: map_of_rangeEntries rangeOrder_def)
qed

lemma loadLines_saved:
  assumes valid: "\<And>k v. (k, v) \<in> set es \<Longrightarrow> EQ \<notin> set k \<and> CR \<notin> set k \<and> LF \<notin> set k \<and>
      CR \<notin> set v \<and> LF \<notin> set v \<and> TrimSpace k = k \<and> TrimSpace v = v"
    and "rd_buf b = savedBytes es" and "rd_err b = None"
  shows "loadLines ifs b = (None, ifs\<lparr>data := data ifs ++ map_of (rev es)\<rparr>)"
proof -
  have d: "deliveredLines b = map (\<lambda>(k, v). k @ EQ # v) es"
  proof (rule deliveredLines_saved)
    fix k v assume "(k, v) \<in> set es"
    from valid [OF this] EQ_neq
    show "CR \<notin> set (k @ EQ # v) \<and> LF \<notin> set (k @ EQ # v)" by auto
  qed (rule assms(2))
  have all: "\<forall>l \<in> set (deliveredLines b). EQ \<in> set l"
    unfolding d by auto
  then have tw: "takeWhile (\<lambda>l. EQ \<in> set l) (deliveredLines b) = deliveredLines b"
    by (simp add: takeWhile_eq_all_conv)
  have f: "foldl storeLine ifs (deliveredLines b) = ifs\<lparr>data := data ifs ++ map_of (rev es)\<rparr>"
    unfolding d
  proof (rule foldl_storeLine_entries)
    fix k v assume "(k, v) \<in> set es"
    from valid [OF this] show "EQ \<notin> set k \<and> TrimSpace k = k \<and> TrimSpace v = v" by simp
  qed
  have e: "readError b = EOF" using assms(3) by (simp add: readError_def)
  show ?thesis
    unfolding loadLines_delivered [of ifs b] tw f using all e by simp
qed

subsection \<open>The examples\<close>

lemma filePath_example: "filePath exampleEnv = (examplePath, None)"
  by (simp add: filePath_def exampleEnv_def examplePath_def)

lemma noFaults_simps:
  "statErr noFaults = None" "mkdirErr noFaults = None" "openErr noFaults = None"
  "readErr noFaults = None" "writeErr noFaults i = None" "flushErr noFaults = None"
  by (simp_all add: noFaults_def)

section \<open>The claims about Load and Save\<close>

text \<open>
  C3: round trip. For every store whose keys and values are valid (no \<open>=\<close>, CR, LF
  in keys, no CR, LF in values) and carry no leading or trailing white space, \<open>Save()\<close>
  and then \<open>Load()\<close> on a freshly created empty store yields a mapping equal to the
  original, whatever the order in which \<open>Save\<close> visits the entries. The path of the
  file is known and the operating system reports no failure to either call.
\<close>

theorem Save_Load_roundtrip:
  assumes "filePath env = (p, None)"
    and "rangeOrder ifs order"
    and "\<forall>key val. data ifs key = Some val \<longrightarrow>
      EQ \<notin> set key \<and> CR \<notin> set key \<and> LF \<notin> set key \<and> CR \<notin> set val \<and> LF \<notin> set val \<and>
      TrimSpace key = key \<and> TrimSpace val = val"
    and "mkdirErr sflt = None" and "openErr sflt = None"
    and "\<forall>i. writeErr sflt i = None" and "flushErr sflt = None"
    and "statErr lflt = None" and "mkdirErr lflt = None" and "openErr lflt = None"
    and "readErr lflt = None"
  shows "fst (Save env sflt order (ifs, fs)) = None \<and>
    fst (snd (Save env sflt order (ifs, fs))) = ifs \<and>
    Load env lflt (NewIniFileSettings, snd (snd (Save env sflt order (ifs, fs)))) =
      (None, (ifs, snd (snd (Save env sflt order (ifs, fs)))))"
proof -
  let ?es = "rangeEntries ifs order"
  let ?fs = "fs(p \<mapsto> savedBytes ?es)"
  have sv: "Save env sflt order (ifs, fs) = (None, (ifs, ?fs))"
    using Save_writes [OF assms(4,5,6,7), of env order ifs fs] assms(1) by simp
  have rd: "NewReader lflt ?fs p = \<lparr>rd_buf = savedBytes ?es, rd_err = None\<rparr>"
    using assms(11) by (simp add: NewReader_def)
  have ll: "loadLines NewIniFileSettings (NewReader lflt ?fs p) =
      (None, NewIniFileSettings\<lparr>data := data NewIniFileSettings ++ map_of (rev ?es)\<rparr>)"
  proof (rule loadLines_saved)
    fix k v assume "(k, v) \<in> set ?es"
    then have "data ifs k = Some v" by (rule rangeEntries_data)
    with assms(3) show "EQ \<notin> set k \<and> CR \<notin> set k \<and> LF \<notin> set k \<and>
      CR \<notin> set v \<and> LF \<notin> set v \<and> TrimSpace k = k \<and> TrimSpace v = v" by blast
  qed (simp_all add: rd)
  have restored: "NewIniFileSettings\<lparr>data := data NewIniFileSettings ++ map_of (rev ?es)\<rparr> = ifs"
    using map_of_rangeOrder [OF assms(2)] by (simp add: NewIniFileSettings_def)
  have ld: "Load env lflt (NewIniFileSettings, ?fs) = (None, (ifs, ?fs))"
    using Load_reads [where fs = ?fs and p = p and c = "savedBytes ?es" and ifs = NewIniFileSettings,
        OF assms(1) _ assms(8,9,10)]
    by (simp add: ll restored)
  show ?thesis
    by (simp add: sv ld)
qed

theorem Save_Load_roundtrip_witness:
  "filePath exampleEnv = (examplePath, None) \<and>
   rangeOrder exampleStore [''version'', ''name''] \<and>
   TrimSpace ''name'' = ''name'' \<and> TrimSpace ''walk'' = ''walk'' \<and>
   TrimSpace ''version'' = ''version'' \<and> TrimSpace ''1.0'' = ''1.0'' \<and>
   snd (snd (Save exampleEnv noFaults [''version'', ''name''] (exampleStore, Map.empty))) examplePath =
     Some (''version=1.0'' @ [LF] @ ''name=walk'' @ [LF]) \<and>
   fst (Save exampleEnv noFaults [''version'', ''name''] (exampleStore, Map.empty)) = None \<and>
   Load exampleEnv noFaults
     (NewIniFileSettings,
      snd (snd (Save exampleEnv noFaults [''version'', ''name''] (exampleStore, Map.empty)))) =
     (None,
      (exampleStore,
       snd (snd (Save exampleEnv noFaults [''version'', ''name''] (exampleStore, Map.empty)))))"
proof -
  have t: "TrimSpace ''name'' = ''name''" "TrimSpace ''walk'' = ''walk''"
    "TrimSpace ''version'' = ''version''" "TrimSpace ''1.0'' = ''1.0''"
    by code_simp+
  have ro: "rangeOrder exampleStore [''version'', ''name'']"
    by (auto simp: rangeOrder_def exampleStore_def split: if_splits)
  have valid: "\<forall>key val. data exampleStore key = Some val \<longrightarrow>
      EQ \<notin> set key \<and> CR \<notin> set key \<and> LF \<notin> set key \<and> CR \<notin> set val \<and> LF \<notin> set val \<and>
      TrimSpace key = key \<and> TrimSpace val = val"
    using t by (auto simp: exampleStore_def EQ_def CR_def LF_def split: if_splits)
  have written: "snd (snd (Save exampleEnv noFaults [''version'', ''name''] (exampleStore, Map.empty)))
      examplePath = Some (''version=1.0'' @ [LF] @ ''name=walk'' @ [LF])"
    using Save_writes [of noFaults exampleEnv "[''version'', ''name'']" exampleStore Map.empty]
    by (simp add: noFaults_simps filePath_example savedBytes_def rangeEntries_def exampleStore_def
        EQ_def)
  have nf: "\<forall>i. writeErr noFaults i = None"
    by (simp add: noFaults_simps)
  have rt: "fst (Save exampleEnv noFaults [''version'', ''name''] (exampleStore, Map.empty)) = None \<and>
    fst (snd (Save exampleEnv noFaults [''version'', ''name''] (exampleStore, Map.empty))) = exampleStore \<and>
    Load exampleEnv noFaults
     (NewIniFileSettings,
      snd (snd (Save exampleEnv noFaults [''version'', ''name''] (exampleStore, Map.empty)))) =
     (None,
      (exampleStore,
       snd (snd (Save exampleEnv noFaults [''version'', ''name''] (exampleStore, Map.empty)))))"
    by (rule Save_Load_roundtrip [OF filePath_example ro valid noFaults_simps(2,3) nf
          noFaults_simps(6,1,2,3,4)])
  show ?thesis
    by (intro conjI) (rule filePath_example ro t written conjunct1 [OF rt]
        conjunct2 [OF conjunct2 [OF rt]])+
qed

lemma storeLine_key_val:
  "storeLine ifs l = ifs\<lparr>data := (data ifs)(lineKey l \<mapsto> lineVal l)\<rparr>"
  by (simp add: storeLine_def lineKey_def lineVal_def Let_def)

lemma foldl_storeLine_other_key:
  "(\<And>l. l \<in> set ls \<Longrightarrow> lineKey l \<noteq> key) \<Longrightarrow>
   data (foldl storeLine ifs ls) key = data ifs key"
proof (induction ls arbitrary: ifs)
  case Nil
  show ?case by simp
next
  case (Cons l ls)
  have ne: "lineKey l \<noteq> key" by (rule Cons.prems) simp
  have "data (foldl storeLine (storeLine ifs l) ls) key = data (storeLine ifs l) key"
  proof (rule Cons.IH)
    fix l' assume "l' \<in> set ls"
    then show "lineKey l' \<noteq> key" by (intro Cons.prems) simp
  qed
  also have "\<dots> = data ifs key"
    using ne by (simp add: storeLine_key_val)
  finally show ?case by simp
qed

text \<open>
  C4: for every line processed by \<open>Load()\<close> that contains at least one \<open>=\<close>, the
  first \<open>=\<close> on the line is the separator: the stored key is the substring before
  it with surrounding white space stripped, and the stored value is the substring after
  it with surrounding white space stripped, so that further \<open>=\<close> characters stay in
  the value. The line \<open>k @ EQ # v\<close>, with no \<open>=\<close> in \<open>k\<close>, is processed when every
  line delivered before it has a \<open>=\<close>. The store that \<open>Load()\<close> leaves is then the
  store as the earlier lines made it, with \<open>TrimSpace k\<close> mapped to \<open>TrimSpace v\<close>,
  and with the entries of the later lines (up to the first without \<open>=\<close>) put into
  it; unless one of those has the same key, \<open>Get\<close> of \<open>TrimSpace k\<close> on the store
  after \<open>Load()\<close> returns \<open>TrimSpace v\<close> and true. The file exists, and
  \<open>os.Stat\<close>, \<open>os.MkdirAll\<close> and \<open>os.OpenFile\<close> do not fail.
\<close>

theorem Load_first_assign_separates:
  assumes "filePath env = (p, None)" and "fs p = Some c"
    and "statErr flt = None" and "mkdirErr flt = None" and "openErr flt = None"
    and "deliveredLines (NewReader flt fs p) = pre @ (k @ EQ # v) # post"
    and "\<forall>l \<in> set pre. EQ \<in> set l" and "EQ \<notin> set k"
  shows "fst (snd (Load env flt (ifs, fs))) =
      foldl storeLine
        ((foldl storeLine ifs pre)
           \<lparr>data := (data (foldl storeLine ifs pre))(TrimSpace k \<mapsto> TrimSpace v)\<rparr>)
        (takeWhile (\<lambda>l. EQ \<in> set l) post) \<and>
    ((\<forall>l \<in> set (takeWhile (\<lambda>l. EQ \<in> set l) post). lineKey l \<noteq> TrimSpace k) \<longrightarrow>
      Get (fst (snd (Load env flt (ifs, fs)))) (TrimSpace k) = (TrimSpace v, True))"
proof -
  let ?b = "NewReader flt fs p"
  let ?ifs1 = "foldl storeLine ifs pre"
  let ?ifs2 = "?ifs1\<lparr>data := (data ?ifs1)(TrimSpace k \<mapsto> TrimSpace v)\<rparr>"
  let ?rest = "takeWhile (\<lambda>l. EQ \<in> set l) post"
  have ld: "fst (snd (Load env flt (ifs, fs))) =
      foldl storeLine ifs (takeWhile (\<lambda>l. EQ \<in> set l) (deliveredLines ?b))"
    using Load_reads [where fs = fs and p = p and c = c, OF assms(1-5), of ifs]
    by (simp add: loadLines_delivered [of ifs ?b])
  have tw: "takeWhile (\<lambda>l. EQ \<in> set l) (pre @ (k @ EQ # v) # post) = pre @ (k @ EQ # v) # ?rest"
    using assms(7) by (simp add: takeWhile_append2)
  have line: "storeLine ?ifs1 (k @ EQ # v) = ?ifs2"
    using assms(8) by (rule storeLine_entry)
  have store: "fst (snd (Load env flt (ifs, fs))) = foldl storeLine ?ifs2 ?rest"
    unfolding ld assms(6) tw by (simp add: line)
  have get: "Get (fst (snd (Load env flt (ifs, fs)))) (TrimSpace k) = (TrimSpace v, True)"
    if other: "\<forall>l \<in> set ?rest. lineKey l \<noteq> TrimSpace k"
  proof -
    have "data (foldl storeLine ?ifs2 ?rest) (TrimSpace k) = data ?ifs2 (TrimSpace k)"
      using other by (intro foldl_storeLine_other_key) blast
    then show ?thesis
      unfolding store by (simp add: Get_def)
  qed
  from store get show ?thesis by blast
qed

theorem Load_first_assign_separates_witness:
  "filePath exampleEnv = (examplePath, None) \<and>
   [examplePath \<mapsto> ''a=b'' @ [LF] @ '' url = http://x/?a=b&c=d '' @ [CR, LF] @ ''z=1'' @ [LF]]
     examplePath =
     Some (''a=b'' @ [LF] @ '' url = http://x/?a=b&c=d '' @ [CR, LF] @ ''z=1'' @ [LF]) \<and>
   deliveredLines (NewReader noFaults
     [examplePath \<mapsto> ''a=b'' @ [LF] @ '' url = http://x/?a=b&c=d '' @ [CR, LF] @ ''z=1'' @ [LF]]
     examplePath) =
     [''a=b''] @ ('' url '' @ EQ # '' http://x/?a=b&c=d '') # [''z=1''] \<and>
   EQ \<in> set ''a=b'' \<and> EQ \<notin> set '' url '' \<and>
   TrimSpace '' url '' = ''url'' \<and> TrimSpace '' http://x/?a=b&c=d '' = ''http://x/?a=b&c=d'' \<and>
   lineKey ''z=1'' = ''z'' \<and>
   Get (fst (snd (Load exampleEnv noFaults (NewIniFileSettings,
     [examplePath \<mapsto> ''a=b'' @ [LF] @ '' url = http://x/?a=b&c=d '' @ [CR, LF] @ ''z=1'' @ [LF]]))))
     ''url'' = (''http://x/?a=b&c=d'', True)"
proof -
  let ?c = "''a=b'' @ [LF] @ '' url = http://x/?a=b&c=d '' @ [CR, LF] @ ''z=1'' @ [LF]"
  have f: "[examplePath \<mapsto> ?c] examplePath = Some ?c" by simp
  have dl0: "deliveredLines (NewReader noFaults [examplePath \<mapsto> ?c] examplePath) =
      [''a=b'', '' url = http://x/?a=b&c=d '', ''z=1'']"
    by code_simp
  have dl: "deliveredLines (NewReader noFaults [examplePath \<mapsto> ?c] examplePath) =
      [''a=b''] @ ('' url '' @ EQ # '' http://x/?a=b&c=d '') # [''z=1'']"
    unfolding dl0 by (simp add: EQ_def)
  have e1: "EQ \<in> set ''a=b''" and k: "EQ \<notin> set '' url ''"
    by (simp_all add: EQ_def)
  have pre: "\<forall>l \<in> set [''a=b'']. EQ \<in> set l"
    using e1 by simp
  have t: "TrimSpace '' url '' = ''url''" "TrimSpace '' http://x/?a=b&c=d '' = ''http://x/?a=b&c=d''"
    by code_simp+
  have z: "lineKey ''z=1'' = ''z''"
    by code_simp
  have other: "\<forall>l \<in> set (takeWhile (\<lambda>l. EQ \<in> set l) [''z=1'']). lineKey l \<noteq> TrimSpace '' url ''"
    by (simp add: t z)
  note th = Load_first_assign_separates [where fs = "[examplePath \<mapsto> ?c]" and p = examplePath
      and c = ?c and ifs = NewIniFileSettings, OF filePath_example f noFaults_simps(1,2,3) dl pre k]
  from th other
  have "Get (fst (snd (Load exampleEnv noFaults (NewIniFileSettings, [examplePath \<mapsto> ?c]))))
      (TrimSpace '' url '') = (TrimSpace '' http://x/?a=b&c=d '', True)"
    by blast
  then have g: "Get (fst (snd (Load exampleEnv noFaults (NewIniFileSettings, [examplePath \<mapsto> ?c]))))
      ''url'' = (''http://x/?a=b&c=d'', True)"
    unfolding t .
  show ?thesis
    by (intro conjI) (rule filePath_example f dl e1 k t z g)+
qed

text \<open>
  C5, as the code has it: \<open>Load()\<close> fails with ParseError exactly when the reader
  delivers a line lacking \<open>=\<close>, and an empty line is such a line; in particular, for
  every file in which every line, empty lines included, contains a \<open>=\<close>, \<open>Load()\<close>
  succeeds. For a file whose last line ends with a line feed, \<open>Load()\<close> fails with
  ParseError exactly when some line of the file, empty or not, lacks \<open>=\<close>. The file
  exists, and \<open>os.Stat\<close>, \<open>os.MkdirAll\<close> and \<open>os.OpenFile\<close> do not fail; for the
  statements about the lines of the file no read fails either.
\<close>

theorem Load_ParseError_iff:
  assumes "filePath env = (p, None)" and "fs p = Some c"
    and "statErr flt = None" and "mkdirErr flt = None" and "openErr flt = None"
  shows "(fst (Load env flt (ifs, fs)) = Some ParseError) =
      (\<exists>l \<in> set (deliveredLines (NewReader flt fs p)). EQ \<notin> set l) \<and>
    (readErr flt = None \<longrightarrow> (\<forall>l \<in> set (fileLines c). EQ \<in> set l) \<longrightarrow>
      fst (Load env flt (ifs, fs)) = None) \<and>
    (readErr flt = None \<longrightarrow> c = [] \<or> last c = LF \<longrightarrow>
      (fst (Load env flt (ifs, fs)) = Some ParseError) = (\<exists>l \<in> set (fileLines c). EQ \<notin> set l))"
proof -
  let ?b = "NewReader flt fs p"
  have ld: "fst (Load env flt (ifs, fs)) = fst (loadLines ifs ?b)"
    using Load_reads [where fs = fs and p = p and c = c, OF assms] by simp
  have fstl: "fst (loadLines ifs ?b) =
      (if \<exists>l \<in> set (deliveredLines ?b). EQ \<notin> set l then Some ParseError
       else if readError ?b = EOF then None else Some (wrapError (readError ?b)))"
    by (simp add: loadLines_delivered [of ifs ?b])
  have iff: "(fst (Load env flt (ifs, fs)) = Some ParseError) =
      (\<exists>l \<in> set (deliveredLines ?b). EQ \<notin> set l)"
    unfolding ld fstl by (simp add: ParseError_def)
  have ok: "fst (Load env flt (ifs, fs)) = None"
    if nr: "readErr flt = None" and all: "\<forall>l \<in> set (fileLines c). EQ \<in> set l"
  proof -
    from nr assms(2) have b: "rd_buf ?b = c" "readError ?b = EOF"
      by (simp_all add: NewReader_def readError_def)
    from all b(1) have "\<forall>l \<in> set (deliveredLines ?b). EQ \<in> set l"
      using delivered_have_assign [of ?b] by simp
    with b(2) show ?thesis unfolding ld fstl by simp
  qed
  have whole: "(fst (Load env flt (ifs, fs)) = Some ParseError) =
      (\<exists>l \<in> set (fileLines c). EQ \<notin> set l)"
    if nr: "readErr flt = None" and ended: "c = [] \<or> last c = LF"
  proof -
    from nr assms(2) have "rd_buf ?b = c" by (simp add: NewReader_def)
    then have "deliveredLines ?b = map assembled (fileLines c)"
      using ended by (rule deliveredLines_whole_lines)
    then show ?thesis
      unfolding iff by (simp add: assembled_has_assign)
  qed
  from iff ok whole show ?thesis by blast
qed

theorem Load_ParseError_iff_witness:
  "filePath exampleEnv = (examplePath, None) \<and>
   [examplePath \<mapsto> ''a=b'' @ [LF] @ ''c = d = e'' @ [CR, LF] @ ''='' @ [LF]] examplePath =
     Some (''a=b'' @ [LF] @ ''c = d = e'' @ [CR, LF] @ ''='' @ [LF]) \<and>
   last (''a=b'' @ [LF] @ ''c = d = e'' @ [CR, LF] @ ''='' @ [LF]) = LF \<and>
   fileLines (''a=b'' @ [LF] @ ''c = d = e'' @ [CR, LF] @ ''='' @ [LF]) =
     [''a=b'', ''c = d = e'' @ [CR], ''=''] \<and>
   deliveredLines (NewReader noFaults
     [examplePath \<mapsto> ''a=b'' @ [LF] @ ''c = d = e'' @ [CR, LF] @ ''='' @ [LF]] examplePath) =
     [''a=b'', ''c = d = e'', ''=''] \<and>
   fst (Load exampleEnv noFaults (NewIniFileSettings,
     [examplePath \<mapsto> ''a=b'' @ [LF] @ ''c = d = e'' @ [CR, LF] @ ''='' @ [LF]])) \<noteq> Some ParseError \<and>
   fst (Load exampleEnv noFaults (NewIniFileSettings,
     [examplePath \<mapsto> ''a=b'' @ [LF] @ ''c = d = e'' @ [CR, LF] @ ''='' @ [LF]])) = None"
proof -
  let ?c = "''a=b'' @ [LF] @ ''c = d = e'' @ [CR, LF] @ ''='' @ [LF]"
  have f: "[examplePath \<mapsto> ?c] examplePath = Some ?c" by simp
  have la: "last ?c = LF" by simp
  have fl: "fileLines ?c = [''a=b'', ''c = d = e'' @ [CR], ''='']"
    by code_simp
  have dl: "deliveredLines (NewReader noFaults [examplePath \<mapsto> ?c] examplePath) =
      [''a=b'', ''c = d = e'', ''='']"
    by code_simp
  have all: "\<forall>l \<in> set (fileLines ?c). EQ \<in> set l"
    unfolding fl by (simp add: EQ_def)
  have none: "\<not> (\<exists>l \<in> set (deliveredLines (NewReader noFaults [examplePath \<mapsto> ?c] examplePath)).
      EQ \<notin> set l)"
    unfolding dl by (simp add: EQ_def)
  note th = Load_ParseError_iff [where fs = "[examplePath \<mapsto> ?c]" and p = examplePath and c = ?c
      and ifs = NewIniFileSettings, OF filePath_example f noFaults_simps(1,2,3)]
  from th none have np: "fst (Load exampleEnv noFaults (NewIniFileSettings, [examplePath \<mapsto> ?c])) \<noteq>
      Some ParseError"
    by blast
  from th all noFaults_simps(4)
  have ok: "fst (Load exampleEnv noFaults (NewIniFileSettings, [examplePath \<mapsto> ?c])) = None"
    by blast
  show ?thesis
    by (intro conjI) (rule filePath_example f la fl dl np ok)+
qed

theorem Load_empty_line_is_ParseError:
  "fileLines (''a=b'' @ [LF, LF] @ ''c=d'' @ [LF]) = [''a=b'', [], ''c=d''] \<and>
   list_all (\<lambda>l. l = [] \<or> EQ \<in> set l) (fileLines (''a=b'' @ [LF, LF] @ ''c=d'' @ [LF])) \<and>
   fst (Load exampleEnv noFaults
     (NewIniFileSettings, [examplePath \<mapsto> ''a=b'' @ [LF, LF] @ ''c=d'' @ [LF]])) = Some ParseError"
proof -
  have fl: "fileLines (''a=b'' @ [LF, LF] @ ''c=d'' @ [LF]) = [''a=b'', [], ''c=d'']"
    by code_simp
  have la: "list_all (\<lambda>l. l = [] \<or> EQ \<in> set l) (fileLines (''a=b'' @ [LF, LF] @ ''c=d'' @ [LF]))"
    unfolding fl by (simp add: EQ_def)
  have ld: "fst (Load exampleEnv noFaults
     (NewIniFileSettings, [examplePath \<mapsto> ''a=b'' @ [LF, LF] @ ''c=d'' @ [LF]])) = Some ParseError"
    by code_simp
  show ?thesis
    by (intro conjI) (rule fl la ld)+
qed

text \<open>
  C6, as the code has it: when \<open>Load()\<close> fails with ParseError on some line of the
  file, the entries parsed from the lines before the failing line are kept: the store
  after the failed \<open>Load()\<close> is the store before it with the entry of each line
  delivered before the failing one put into it, in the order of the file. The file
  exists, and \<open>os.Stat\<close>, \<open>os.MkdirAll\<close> and \<open>os.OpenFile\<close> do not fail.
\<close>

theorem Load_ParseError_keeps_earlier_lines:
  assumes "filePath env = (p, None)" and "fs p = Some c"
    and "statErr flt = None" and "mkdirErr flt = None" and "openErr flt = None"
    and "fst (Load env flt (ifs, fs)) = Some ParseError"
  shows "snd (Load env flt (ifs, fs)) =
    (foldl storeLine ifs (takeWhile (\<lambda>l. EQ \<in> set l) (deliveredLines (NewReader flt fs p))), fs)"
proof -
  have "Load env flt (ifs, fs) =
      (fst (loadLines ifs (NewReader flt fs p)), (snd (loadLines ifs (NewReader flt fs p)), fs))"
    by (rule Load_reads [where fs = fs and p = p and c = c, OF assms(1-5)])
  then show ?thesis
    by (simp add: loadLines_delivered [of ifs "NewReader flt fs p"])
qed

theorem Load_ParseError_keeps_earlier_lines_witness:
  "filePath exampleEnv = (examplePath, None) \<and>
   [examplePath \<mapsto> ''name=walk'' @ [LF] @ ''version=1.0'' @ [LF] @ ''no-equals-sign-here'' @ [LF] @
      ''later=line'' @ [LF]] examplePath =
     Some (''name=walk'' @ [LF] @ ''version=1.0'' @ [LF] @ ''no-equals-sign-here'' @ [LF] @
      ''later=line'' @ [LF]) \<and>
   fst (Load exampleEnv noFaults (exampleStore\<lparr>data := [''old'' \<mapsto> ''entry'']\<rparr>,
     [examplePath \<mapsto> ''name=walk'' @ [LF] @ ''version=1.0'' @ [LF] @ ''no-equals-sign-here'' @ [LF] @
      ''later=line'' @ [LF]])) = Some ParseError \<and>
   deliveredLines (NewReader noFaults
     [examplePath \<mapsto> ''name=walk'' @ [LF] @ ''version=1.0'' @ [LF] @ ''no-equals-sign-here'' @ [LF] @
      ''later=line'' @ [LF]] examplePath) =
     [''name=walk'', ''version=1.0'', ''no-equals-sign-here'', ''later=line''] \<and>
   data (fst (snd (Load exampleEnv noFaults (exampleStore\<lparr>data := [''old'' \<mapsto> ''entry'']\<rparr>,
     [examplePath \<mapsto> ''name=walk'' @ [LF] @ ''version=1.0'' @ [LF] @ ''no-equals-sign-here'' @ [LF] @
      ''later=line'' @ [LF]])))) =
     [''old'' \<mapsto> ''entry'', ''name'' \<mapsto> ''walk'', ''version'' \<mapsto> ''1.0'']"
proof -
  let ?c = "''name=walk'' @ [LF] @ ''version=1.0'' @ [LF] @ ''no-equals-sign-here'' @ [LF] @
      ''later=line'' @ [LF]"
  let ?ifs = "exampleStore\<lparr>data := [''old'' \<mapsto> ''entry'']\<rparr>"
  have f: "[examplePath \<mapsto> ?c] examplePath = Some ?c" by simp
  have pe: "fst (Load exampleEnv noFaults (?ifs, [examplePath \<mapsto> ?c])) = Some ParseError"
    by code_simp
  have dl: "deliveredLines (NewReader noFaults [examplePath \<mapsto> ?c] examplePath) =
      [''name=walk'', ''version=1.0'', ''no-equals-sign-here'', ''later=line'']"
    by code_simp
  have t: "TrimSpace ''name'' = ''name''" "TrimSpace ''walk'' = ''walk''"
    "TrimSpace ''version'' = ''version''" "TrimSpace ''1.0'' = ''1.0''"
    by code_simp+
  have s1: "storeLine ifs ''name=walk'' = ifs\<lparr>data := (data ifs)(''name'' \<mapsto> ''walk'')\<rparr>" for ifs
    using storeLine_entry [of "''name''" ifs "''walk''"] by (simp add: EQ_def t)
  have s2: "storeLine ifs ''version=1.0'' = ifs\<lparr>data := (data ifs)(''version'' \<mapsto> ''1.0'')\<rparr>" for ifs
    using storeLine_entry [of "''version''" ifs "''1.0''"] by (simp add: EQ_def t)
  have tw: "takeWhile (\<lambda>l. EQ \<in> set l)
      [''name=walk'', ''version=1.0'', ''no-equals-sign-here'', ''later=line''] =
      [''name=walk'', ''version=1.0'']"
    by (simp add: EQ_def)
  have st: "data (fst (snd (Load exampleEnv noFaults (?ifs, [examplePath \<mapsto> ?c])))) =
      [''old'' \<mapsto> ''entry'', ''name'' \<mapsto> ''walk'', ''version'' \<mapsto> ''1.0'']"
    unfolding Load_ParseError_keeps_earlier_lines
      [where fs = "[examplePath \<mapsto> ?c]" and p = examplePath and c = ?c,
        OF filePath_example f noFaults_simps(1,2,3) pe] dl tw
    by (simp add: s1 s2)
  show ?thesis
    by (intro conjI) (rule filePath_example f pe dl st)+
qed

theorem Load_ParseError_keeps_entry:
  "fst (Load exampleEnv noFaults
     (NewIniFileSettings, [examplePath \<mapsto> ''a=b'' @ [LF] @ ''bad'' @ [LF]])) = Some ParseError \<and>
   Get (fst (snd (Load exampleEnv noFaults
     (NewIniFileSettings, [examplePath \<mapsto> ''a=b'' @ [LF] @ ''bad'' @ [LF]])))) ''a'' = (''b'', True)"
  by code_simp

text \<open>
  C7: for every store, if the backing file does not exist, \<open>Load()\<close> returns success
  and leaves the store's mapping (and the file system) exactly as it was before the
  call. The path of the file is known, that is, \<open>filePath\<close> returns no error.
\<close>

theorem Load_missing_file:
  assumes "filePath env = (p, None)" and "fs p = None"
  shows "Load env flt (ifs, fs) = (None, (ifs, fs))"
proof -
  have "Stat flt fs p \<noteq> None"
    using assms(2) by (simp add: Stat_def split: option.splits)
  then have "fileExists env flt fs = (False, None)"
    using assms(1) by (auto simp: fileExists_def)
  then show ?thesis
    by (simp add: Load_def)
qed

theorem Load_missing_file_witness:
  "filePath exampleEnv = (examplePath, None) \<and>
   (Map.empty :: filesys) examplePath = None \<and>
   Load exampleEnv noFaults (exampleStore, Map.empty) = (None, (exampleStore, Map.empty))"
proof -
  have f: "(Map.empty :: filesys) examplePath = None" by simp
  show ?thesis
    by (intro conjI) (rule filePath_example f Load_missing_file [OF filePath_example f])+
qed

text \<open>
  The other failures of the file system are reported: a failure of \<open>os.MkdirAll\<close> or
  \<open>os.OpenFile\<close>, and a failed read when all lines before it have a \<open>=\<close>, come
  back wrapped.
\<close>

lemma Load_reports_failures:
  assumes "filePath env = (p, None)" and "fs p = Some c" and "statErr flt = None"
  shows "mkdirErr flt = Some e \<Longrightarrow> fst (Load env flt (ifs, fs)) = Some (wrapError (Errno e))"
    and "mkdirErr flt = None \<Longrightarrow> openErr flt = Some e \<Longrightarrow>
      fst (Load env flt (ifs, fs)) = Some (wrapError (Errno e))"
    and "mkdirErr flt = None \<Longrightarrow> openErr flt = None \<Longrightarrow> readErr flt = Some (n, e) \<Longrightarrow>
      \<forall>l \<in> set (deliveredLines (NewReader flt fs p)). EQ \<in> set l \<Longrightarrow>
      fst (Load env flt (ifs, fs)) = Some (wrapError (Errno e))"
proof -
  have ex: "fileExists env flt fs = (True, None)"
    using assms by (simp add: fileExists_def Stat_def)
  show "mkdirErr flt = Some e \<Longrightarrow> fst (Load env flt (ifs, fs)) = Some (wrapError (Errno e))"
    using ex by (simp add: Load_def withFile_def MkdirAll_def Let_def)
  show "mkdirErr flt = None \<Longrightarrow> openErr flt = Some e \<Longrightarrow>
      fst (Load env flt (ifs, fs)) = Some (wrapError (Errno e))"
    using ex by (simp add: Load_def withFile_def MkdirAll_def OpenFile_def Let_def)
  show "fst (Load env flt (ifs, fs)) = Some (wrapError (Errno e))"
    if "mkdirErr flt = None" "openErr flt = None" "readErr flt = Some (n, e)"
      "\<forall>l \<in> set (deliveredLines (NewReader flt fs p)). EQ \<in> set l"
  proof -
    have "readError (NewReader flt fs p) = Errno e"
      using that(3) by (simp add: NewReader_def readError_def)
    with that(4) show ?thesis
      using Load_reads [where fs = fs and p = p and c = c, OF assms that(1,2), of ifs]
      by (simp add: loadLines_delivered [of ifs "NewReader flt fs p"])
  qed
qed

text \<open>
  C8 fails on the code: when \<open>os.Stat\<close> fails for a reason other than the file not
  existing, here a permission error on a file that is present and well-formed,
  \<open>fileExists\<close> answers \<open>(false, nil)\<close> and \<open>Load()\<close> returns success with the store
  unchanged: the failure is swallowed and the file is not read. The same permission
  error from \<open>os.OpenFile\<close> is returned as an IOError.
\<close>

theorem Load_swallows_Stat_failure:
  "Load exampleEnv (noFaults\<lparr>statErr := Some EACCES\<rparr>)
     (NewIniFileSettings, [examplePath \<mapsto> ''name=walk'' @ [LF]]) =
   (None, (NewIniFileSettings, [examplePath \<mapsto> ''name=walk'' @ [LF]])) \<and>
   fst (Load exampleEnv (noFaults\<lparr>openErr := Some EACCES\<rparr>)
     (NewIniFileSettings, [examplePath \<mapsto> ''name=walk'' @ [LF]])) =
     Some (wrapError (Errno EACCES)) \<and>
   IOError (wrapError (Errno EACCES))"
proof -
  have a: "Load exampleEnv (noFaults\<lparr>statErr := Some EACCES\<rparr>)
     (NewIniFileSettings, [examplePath \<mapsto> ''name=walk'' @ [LF]]) =
   (None, (NewIniFileSettings, [examplePath \<mapsto> ''name=walk'' @ [LF]]))"
    by (simp add: Load_def fileExists_def filePath_example Stat_def noFaults_def)
  have b: "fst (Load exampleEnv (noFaults\<lparr>openErr := Some EACCES\<rparr>)
     (NewIniFileSettings, [examplePath \<mapsto> ''name=walk'' @ [LF]])) =
     Some (wrapError (Errno EACCES))"
    by (rule Load_reports_failures(2) [where p = examplePath and c = "''name=walk'' @ [LF]"])
      (simp_all add: filePath_example noFaults_def)
  have c: "IOError (wrapError (Errno EACCES))"
    by (simp add: IOError_def)
  show ?thesis
    by (intro conjI) (rule a b c)+
qed

section \<open>The claim about the tooltip\<close>

text \<open>
  C10: for every widget argument, \<open>ToolTip.RemoveWidget\<close> panics and never returns
  normally (the operation is unimplemented), even though \<open>AddWidget\<close> for the same
  tooltip and widget can succeed: it returns \<open>nil\<close> when the window system accepts
  the tool.
\<close>

theorem RemoveWidget_panics:
  "RemoveWidget tt widget = Panics ''not implemented'' \<and>
   (\<forall>r. RemoveWidget tt widget \<noteq> Returns r) \<and>
   (\<exists>win. AddWidget win tt widget text = Returns None)"
proof -
  have "AddWidget \<lparr>sizeofTOOLINFO = 48, SendMessage = (\<lambda>h m w ti. 1)\<rparr> tt widget text = Returns None"
    by (simp add: AddWidget_def FALSE_def)
  then show ?thesis
    by (auto simp: RemoveWidget_def)
qed

section \<open>Invariants of the store\<close>

subsection \<open>Carriage returns at the ends of lines\<close>

lemma crAtLineEnds_decomp:
  "crAtLineEnds c = (\<forall>xs ys. c = xs @ CR # ys \<longrightarrow> ys = [] \<or> hd ys = LF)"
proof (induction c rule: crAtLineEnds.induct)
  case 1
  show ?case by simp
next
  case (2 x)
  show ?case by (auto simp: Cons_eq_append_conv)
next
  case (3 x y s)
  show ?case
  proof
    assume a: "crAtLineEnds (x # y # s)"
    then have xy: "x = CR \<longrightarrow> y = LF" and rest: "crAtLineEnds (y # s)" by simp_all
    show "\<forall>xs ys. x # y # s = xs @ CR # ys \<longrightarrow> ys = [] \<or> hd ys = LF"
    proof (intro allI impI)
      fix xs ys assume e: "x # y # s = xs @ CR # ys"
      show "ys = [] \<or> hd ys = LF"
      proof (cases xs)
        case Nil
        with e xy show ?thesis by auto
      next
        case (Cons z zs)
        with e have "y # s = zs @ CR # ys" by simp
        with rest "3.IH" show ?thesis by blast
      qed
    qed
  next
    assume a: "\<forall>xs ys. x # y # s = xs @ CR # ys \<longrightarrow> ys = [] \<or> hd ys = LF"
    have xy: "x = CR \<longrightarrow> y = LF"
    proof
      assume "x = CR"
      then have "x # y # s = [] @ CR # (y # s)" by simp
      with a have "y # s = [] \<or> hd (y # s) = LF" by blast
      then show "y = LF" by simp
    qed
    have "\<forall>xs ys. y # s = xs @ CR # ys \<longrightarrow> ys = [] \<or> hd ys = LF"
    proof (intro allI impI)
      fix xs ys assume "y # s = xs @ CR # ys"
      then have "x # y # s = (x # xs) @ CR # ys" by simp
      with a show "ys = [] \<or> hd ys = LF" by blast
    qed
    with "3.IH" have "crAtLineEnds (y # s)" by simp
    with xy show "crAtLineEnds (x # y # s)" by simp
  qed
qed

lemma crAtLineEnds_noCR: "CR \<notin> set c \<Longrightarrow> crAtLineEnds c"
  by (auto simp: crAtLineEnds_decomp)

lemma crAtLineEnds_take: "crAtLineEnds c \<Longrightarrow> crAtLineEnds (take n c)"
proof -
  assume c: "crAtLineEnds c"
  have "ys = [] \<or> hd ys = LF" if "take n c = xs @ CR # ys" for xs ys
  proof -
    have "c = xs @ CR # (ys @ drop n c)"
      using that append_take_drop_id [of n c] by simp
    with c have "ys @ drop n c = [] \<or> hd (ys @ drop n c) = LF"
      unfolding crAtLineEnds_decomp [of c] by blast
    then show ?thesis by (cases ys) auto
  qed
  then show ?thesis unfolding crAtLineEnds_decomp [of "take n c"] by blast
qed

lemma fileLines_part:
  "s \<in> set (fileLines c) \<Longrightarrow> LF \<notin> set s \<and> (\<exists>pre post. c = pre @ s @ post)"
proof (induction "length c" arbitrary: c rule: less_induct)
  case less
  show ?case
  proof (cases "LF \<in> set c")
    case True
    then obtain l rest where sp: "c = l @ LF # rest" "LF \<notin> set l"
      by (auto dest: split_list_first)
    then have f: "fileLines c = l # fileLines rest"
      by (simp add: fileLines_terminated)
    from less.prems f consider "s = l" | "s \<in> set (fileLines rest)" by auto
    then show ?thesis
    proof cases
      case 1
      with sp have "c = [] @ s @ (LF # rest)" by simp
      with 1 sp(2) show ?thesis by blast
    next
      case 2
      have "length rest < length c" using sp by simp
      from less.hyps [OF this 2] obtain pre post where "LF \<notin> set s" "rest = pre @ s @ post"
        by blast
      with sp have "c = (l @ LF # pre) @ s @ post" by simp
      with \<open>LF \<notin> set s\<close> show ?thesis by blast
    qed
  next
    case False
    show ?thesis
    proof (cases "c = []")
      case True
      with less.prems show ?thesis by (simp add: fileLines_Nil)
    next
      case ne: False
      with False have "fileLines c = [c]" by (simp add: fileLines_unterminated)
      with less.prems have "s = c" by simp
      then have "c = [] @ s @ []" by simp
      with False \<open>s = c\<close> show ?thesis by blast
    qed
  qed
qed

lemma in_butlast_decomp:
  assumes "x \<in> set (butlast s)"
  shows "\<exists>xs ys. s = xs @ x # ys \<and> ys \<noteq> []"
proof -
  from assms obtain xs zs where "butlast s = xs @ x # zs"
    by (auto dest: split_list)
  moreover from assms have "s \<noteq> []" by auto
  ultimately have "s = xs @ x # (zs @ [last s])"
    by (metis append_Cons append_assoc append_butlast_last_id)
  then show ?thesis by blast
qed

lemma fileLines_CR:
  assumes "crAtLineEnds c" and "s \<in> set (fileLines c)"
  shows "CR \<notin> set (butlast s)"
proof
  assume "CR \<in> set (butlast s)"
  then obtain xs ys where s: "s = xs @ CR # ys" "ys \<noteq> []"
    by (auto dest: in_butlast_decomp)
  from assms(2) obtain pre post where lf: "LF \<notin> set s" and c: "c = pre @ s @ post"
    by (auto dest: fileLines_part)
  from c s have "c = (pre @ xs) @ CR # (ys @ post)" by simp
  with assms(1) have "ys @ post = [] \<or> hd (ys @ post) = LF"
    unfolding crAtLineEnds_decomp [of c] by blast
  with s(2) have "hd ys = LF" by simp
  with s lf show False by (cases ys) auto
qed

lemma delivered_no_LF:
  assumes "l \<in> set (deliveredLines b)"
  shows "LF \<notin> set l"
proof -
  from assms obtain s where s: "s \<in> set (fileLines (rd_buf b))" "l = s \<or> s = l @ [CR]"
    by (auto dest: delivered_of_file)
  from s(1) have "LF \<notin> set s" by (simp add: fileLines_part)
  with s(2) show ?thesis by auto
qed

lemma delivered_CR:
  assumes "crAtLineEnds (rd_buf b)" and "l \<in> set (deliveredLines b)"
  shows "CR \<notin> set (butlast l)"
proof -
  from assms(2) obtain s where s: "s \<in> set (fileLines (rd_buf b))" "l = s \<or> s = l @ [CR]"
    by (auto dest: delivered_of_file)
  from assms(1) s(1) have "CR \<notin> set (butlast s)" by (rule fileLines_CR)
  with s(2) show ?thesis by (auto dest: in_set_butlastD)
qed

subsection \<open>What a loaded line puts into the store\<close>

lemma suffix_single: "suffix [c] (y @ [d]) = (c = d)"
  using snoc_suffix_snoc [of "[]" c y d] by simp

lemma trailingSpace_CR: "trailingSpace (y @ [CR]) = Some [CR]"
  by (simp add: trailingSpace_def whiteSpace_def suffix_single CR_def)

lemma TrimRightSpace_CR: "TrimRightSpace (y @ [CR]) = TrimRightSpace y"
  by (subst TrimRightSpace.simps) (simp add: trailingSpace_CR)

lemma TrimRightSpace_no_CR:
  assumes "CR \<notin> set (butlast x)"
  shows "CR \<notin> set (TrimRightSpace x)"
proof (cases "x \<noteq> [] \<and> last x = CR")
  case True
  then have x: "x = butlast x @ [CR]" by (metis append_butlast_last_id)
  have "TrimRightSpace x = TrimRightSpace (butlast x)"
    by (subst x) (rule TrimRightSpace_CR)
  moreover have "set (TrimRightSpace (butlast x)) \<subseteq> set (butlast x)"
    using TrimRightSpace_prefix by (rule set_mono_prefix)
  ultimately show ?thesis using assms by auto
next
  case False
  have "CR \<notin> set x"
  proof (cases "x = []")
    case True
    then show ?thesis by simp
  next
    case ne: False
    then have "x = butlast x @ [last x]" by simp
    then have "set x = set (butlast x) \<union> {last x}"
      by (metis Un_insert_right list.simps(15) set_append sup_bot.right_neutral list.set(1))
    with assms False ne show ?thesis by auto
  qed
  moreover have "set (TrimRightSpace x) \<subseteq> set x"
    using TrimRightSpace_prefix by (rule set_mono_prefix)
  ultimately show ?thesis by auto
qed

lemma butlast_suffix_subset:
  assumes "suffix x v"
  shows "set (butlast x) \<subseteq> set (butlast v)"
proof (cases "x = []")
  case True
  then show ?thesis by simp
next
  case False
  from assms obtain ys where "v = ys @ x" by (auto simp: suffix_def)
  with False have "butlast v = ys @ butlast x" by (simp add: butlast_append)
  then show ?thesis by simp
qed

lemma TrimSpace_no_CR:
  assumes "CR \<notin> set (butlast v)"
  shows "CR \<notin> set (TrimSpace v)"
proof -
  have "set (butlast (TrimLeftSpace v)) \<subseteq> set (butlast v)"
    using TrimLeftSpace_suffix by (rule butlast_suffix_subset)
  with assms have "CR \<notin> set (butlast (TrimLeftSpace v))" by auto
  then show ?thesis
    unfolding TrimSpace_def by (rule TrimRightSpace_no_CR)
qed

lemma storeLine_validLF:
  assumes "validStoreLF ifs" and "LF \<notin> set l" and "EQ \<in> set l"
  shows "validStoreLF (storeLine ifs l)"
proof -
  from assms(3) obtain k v where l: "l = k @ EQ # v" "EQ \<notin> set k"
    by (auto dest: split_list_first)
  have s: "storeLine ifs l = ifs\<lparr>data := (data ifs)(TrimSpace k \<mapsto> TrimSpace v)\<rparr>"
    unfolding l(1) using l(2) by (rule storeLine_entry)
  have k: "set (TrimSpace k) \<subseteq> set k" and v: "set (TrimSpace v) \<subseteq> set v"
    by (rule set_TrimSpace)+
  from assms(2) l have "EQ \<notin> set k" "LF \<notin> set k" "LF \<notin> set v" by auto
  with k v have "EQ \<notin> set (TrimSpace k)" "LF \<notin> set (TrimSpace k)" "LF \<notin> set (TrimSpace v)"
    by auto
  with assms(1) show ?thesis
    unfolding s validStoreLF_def by (auto split: if_splits)
qed

lemma storeLine_validStore:
  assumes "validStore ifs" and "LF \<notin> set l" and "CR \<notin> set (butlast l)" and "EQ \<in> set l"
  shows "validStore (storeLine ifs l)"
proof -
  from assms(4) obtain k v where l: "l = k @ EQ # v" "EQ \<notin> set k"
    by (auto dest: split_list_first)
  have s: "storeLine ifs l = ifs\<lparr>data := (data ifs)(TrimSpace k \<mapsto> TrimSpace v)\<rparr>"
    unfolding l(1) using l(2) by (rule storeLine_entry)
  have k: "set (TrimSpace k) \<subseteq> set k" and v: "set (TrimSpace v) \<subseteq> set v"
    by (rule set_TrimSpace)+
  have bl: "butlast l = k @ butlast (EQ # v)"
    unfolding l(1) by (simp add: butlast_append)
  from assms(3) bl have crk: "CR \<notin> set k" by auto
  from assms(3) bl have "CR \<notin> set (butlast v)" by (cases v) auto
  then have crv: "CR \<notin> set (TrimSpace v)" by (rule TrimSpace_no_CR)
  from assms(2) l have "EQ \<notin> set k" "LF \<notin> set k" "LF \<notin> set v" by auto
  with k v crk have "EQ \<notin> set (TrimSpace k)" "LF \<notin> set (TrimSpace k)" "LF \<notin> set (TrimSpace v)"
    "CR \<notin> set (TrimSpace k)"
    by auto
  with assms(1) crv show ?thesis
    unfolding s validStore_def by (auto split: if_splits)
qed

lemma foldl_storeLine_validLF:
  "validStoreLF ifs \<Longrightarrow> (\<And>l. l \<in> set ls \<Longrightarrow> LF \<notin> set l \<and> EQ \<in> set l) \<Longrightarrow>
   validStoreLF (foldl storeLine ifs ls)"
proof (induction ls arbitrary: ifs)
  case Nil
  then show ?case by simp
next
  case (Cons l ls)
  have "LF \<notin> set l \<and> EQ \<in> set l" by (rule Cons.prems(2)) simp
  with Cons.prems(1) have "validStoreLF (storeLine ifs l)" by (simp add: storeLine_validLF)
  then have "validStoreLF (foldl storeLine (storeLine ifs l) ls)"
  proof (rule Cons.IH)
    fix l' assume "l' \<in> set ls"
    then show "LF \<notin> set l' \<and> EQ \<in> set l'" by (intro Cons.prems(2)) simp
  qed
  then show ?case by simp
qed

lemma foldl_storeLine_validStore:
  "validStore ifs \<Longrightarrow>
   (\<And>l. l \<in> set ls \<Longrightarrow> LF \<notin> set l \<and> CR \<notin> set (butlast l) \<and> EQ \<in> set l) \<Longrightarrow>
   validStore (foldl storeLine ifs ls)"
proof (induction ls arbitrary: ifs)
  case Nil
  then show ?case by simp
next
  case (Cons l ls)
  have "LF \<notin> set l \<and> CR \<notin> set (butlast l) \<and> EQ \<in> set l" by (rule Cons.prems(2)) simp
  with Cons.prems(1) have "validStore (storeLine ifs l)" by (simp add: storeLine_validStore)
  then have "validStore (foldl storeLine (storeLine ifs l) ls)"
  proof (rule Cons.IH)
    fix l' assume "l' \<in> set ls"
    then show "LF \<notin> set l' \<and> CR \<notin> set (butlast l') \<and> EQ \<in> set l'"
      by (intro Cons.prems(2)) simp
  qed
  then show ?case by simp
qed

lemma loadLines_validLF:
  assumes "validStoreLF ifs"
  shows "validStoreLF (snd (loadLines ifs b))"
proof -
  have "validStoreLF (foldl storeLine ifs (takeWhile (\<lambda>l. EQ \<in> set l) (deliveredLines b)))"
    using assms
  proof (rule foldl_storeLine_validLF)
    fix l assume l: "l \<in> set (takeWhile (\<lambda>l. EQ \<in> set l) (deliveredLines b))"
    then have "l \<in> set (deliveredLines b)" by (rule set_takeWhileD [THEN conjunct1])
    then have "LF \<notin> set l" by (rule delivered_no_LF)
    moreover from l have "EQ \<in> set l" by (rule set_takeWhileD [THEN conjunct2])
    ultimately show "LF \<notin> set l \<and> EQ \<in> set l" by simp
  qed
  then show ?thesis by (simp add: loadLines_delivered [of ifs b])
qed

lemma loadLines_validStore:
  assumes "validStore ifs" and "crAtLineEnds (rd_buf b)"
  shows "validStore (snd (loadLines ifs b))"
proof -
  have "validStore (foldl storeLine ifs (takeWhile (\<lambda>l. EQ \<in> set l) (deliveredLines b)))"
    using assms(1)
  proof (rule foldl_storeLine_validStore)
    fix l assume l: "l \<in> set (takeWhile (\<lambda>l. EQ \<in> set l) (deliveredLines b))"
    then have d: "l \<in> set (deliveredLines b)" by (rule set_takeWhileD [THEN conjunct1])
    then have "LF \<notin> set l" by (rule delivered_no_LF)
    moreover from assms(2) d have "CR \<notin> set (butlast l)" by (rule delivered_CR)
    moreover from l have "EQ \<in> set l" by (rule set_takeWhileD [THEN conjunct2])
    ultimately show "LF \<notin> set l \<and> CR \<notin> set (butlast l) \<and> EQ \<in> set l" by simp
  qed
  then show ?thesis by (simp add: loadLines_delivered [of ifs b])
qed

subsection \<open>The operations keep the invariants\<close>

lemma Put_validStore: "validStore ifs \<Longrightarrow> validStore (snd (Put ifs key val))"
  by (auto simp: Put_cases validStore_def split: if_splits)

lemma Put_validLF: "validStoreLF ifs \<Longrightarrow> validStoreLF (snd (Put ifs key val))"
  by (auto simp: Put_cases validStoreLF_def split: if_splits)

lemma Load_result:
  "snd (snd (Load env flt (ifs, fs))) = fs \<and>
   (fst (snd (Load env flt (ifs, fs))) = ifs \<or>
    (\<exists>c. fs (fst (filePath env)) = Some c \<and>
       fst (snd (Load env flt (ifs, fs))) =
         snd (loadLines ifs (NewReader flt fs (fst (filePath env))))))"
proof (cases "fileExists env flt fs = (True, None) \<and> mkdirErr flt = None \<and> openErr flt = None")
  case False
  then show ?thesis
    by (auto simp: Load_def withFile_def MkdirAll_def OpenFile_def O_RDONLY_def Let_def
        split: prod.splits option.splits sum.splits if_splits)
next
  case True
  then have st: "Stat flt fs (fst (filePath env)) = None"
    by (auto simp: fileExists_def split: prod.splits option.splits)
  then obtain c where c: "fs (fst (filePath env)) = Some c"
    by (auto simp: Stat_def split: option.splits if_splits)
  have op: "OpenFile flt fs (fst (filePath env)) O_RDONLY = Inr (fst (filePath env), fs)"
    using True c by (simp add: OpenFile_def O_RDONLY_def)
  have "Load env flt (ifs, fs) =
      (fst (loadLines ifs (NewReader flt fs (fst (filePath env)))),
       (snd (loadLines ifs (NewReader flt fs (fst (filePath env)))), fs))"
    using True op
    by (simp add: Load_def withFile_def MkdirAll_def Let_def split: prod.splits)
  with c show ?thesis by simp
qed

lemma NewReader_buf:
  assumes "fs p = Some c"
  shows "\<exists>n. rd_buf (NewReader flt fs p) = take n c"
proof (cases "readErr flt")
  case None
  with assms have "rd_buf (NewReader flt fs p) = take (length c) c"
    by (simp add: NewReader_def)
  then show ?thesis ..
next
  case (Some ne)
  with assms have "rd_buf (NewReader flt fs p) = take (fst ne) c"
    by (simp add: NewReader_def split: prod.splits)
  then show ?thesis ..
qed

lemma Load_validLF:
  assumes "validStoreLF ifs"
  shows "validStoreLF (fst (snd (Load env flt (ifs, fs))))"
  using Load_result [of env flt ifs fs] assms by (auto simp: loadLines_validLF)

lemma Load_validStore:
  assumes "validStore ifs" and "settingsFileOK env fs"
  shows "validStore (fst (snd (Load env flt (ifs, fs)))) \<and>
    settingsFileOK env (snd (snd (Load env flt (ifs, fs))))"
proof -
  note r = Load_result [of env flt ifs fs]
  from r consider "fst (snd (Load env flt (ifs, fs))) = ifs"
    | c where "fs (fst (filePath env)) = Some c"
        "fst (snd (Load env flt (ifs, fs))) =
           snd (loadLines ifs (NewReader flt fs (fst (filePath env))))"
    by blast
  then have "validStore (fst (snd (Load env flt (ifs, fs))))"
  proof cases
    case 1
    with assms(1) show ?thesis by simp
  next
    case 2
    from assms(2) 2(1) have ok: "crAtLineEnds c" by (simp add: settingsFileOK_def)
    from 2(1) obtain n where "rd_buf (NewReader flt fs (fst (filePath env))) = take n c"
      using NewReader_buf by blast
    with ok have "crAtLineEnds (rd_buf (NewReader flt fs (fst (filePath env))))"
      by (simp add: crAtLineEnds_take)
    with assms(1) 2(2) show ?thesis by (simp add: loadLines_validStore)
  qed
  with r assms(2) show ?thesis by simp
qed

lemma writeEntries_no_CR:
  "CR \<notin> set out \<Longrightarrow> (\<And>k v. (k, v) \<in> set es \<Longrightarrow> CR \<notin> set k \<and> CR \<notin> set v) \<Longrightarrow>
   CR \<notin> set (snd (writeEntries flt i es out))"
proof (induction es arbitrary: i out)
  case Nil
  then show ?case by simp
next
  case (Cons e es)
  obtain k v where e: "e = (k, v)" by (cases e)
  have kv: "CR \<notin> set k \<and> CR \<notin> set v" by (rule Cons.prems(2)) (simp add: e)
  with Cons.prems(1) EQ_neq(1) LF_neq_CR have out: "CR \<notin> set (out @ k @ [EQ] @ v @ [LF])"
    by auto
  show ?case
  proof (cases "writeErr flt i")
    case (Some err)
    with out e show ?thesis by (simp add: Let_def)
  next
    case None
    have "CR \<notin> set (snd (writeEntries flt (Suc i) es (out @ k @ [EQ] @ v @ [LF])))"
      using out
    proof (rule Cons.IH)
      fix k' v' assume "(k', v') \<in> set es"
      then show "CR \<notin> set k' \<and> CR \<notin> set v'" by (intro Cons.prems(2)) simp
    qed
    with None e show ?thesis by (simp add: Let_def)
  qed
qed

lemma Save_result:
  "fst (snd (Save env flt order (ifs, fs))) = ifs \<and>
   (snd (snd (Save env flt order (ifs, fs))) = fs \<or>
    (\<exists>n. snd (snd (Save env flt order (ifs, fs))) =
       fs(fst (filePath env) \<mapsto> take n (snd (writeEntries flt 0 (rangeEntries ifs order) [])))))"
proof (cases "mkdirErr flt = None \<and> openErr flt = None")
  case False
  then show ?thesis
    by (auto simp: Save_def withFile_def MkdirAll_def OpenFile_def Let_def
        split: option.splits)
next
  case True
  let ?p = "fst (filePath env)"
  let ?w = "writeEntries flt 0 (rangeEntries ifs order) []"
  have op: "OpenFile flt fs ?p {O_CREATE, O_TRUNC, O_WRONLY} = Inr (?p, fs(?p \<mapsto> []))"
    using True by (simp add: OpenFile_def split: option.splits)
  have full: "snd ?w = take (length (snd ?w)) (snd ?w)" by simp
  have sv: "Save env flt order (ifs, fs) =
      (case ?w of
         (Some err, out) \<Rightarrow> (Some (wrapError (Errno err)), (ifs, fs(?p \<mapsto> take (written flt) out)))
       | (None, out) \<Rightarrow>
           (case flushErr flt of
              Some err \<Rightarrow> (Some (rawError (Errno err)), (ifs, fs(?p \<mapsto> take (written flt) out)))
            | None \<Rightarrow> (None, (ifs, fs(?p \<mapsto> out)))))"
    using True op
    by (simp add: Save_def withFile_def MkdirAll_def Let_def split: prod.splits option.splits)
  obtain r out where w: "?w = (r, out)" by (cases ?w)
  have st: "fst (snd (Save env flt order (ifs, fs))) = ifs"
    unfolding sv w by (simp split: option.splits)
  have "snd (snd (Save env flt order (ifs, fs))) = fs(?p \<mapsto> take (written flt) out) \<or>
      snd (snd (Save env flt order (ifs, fs))) = fs(?p \<mapsto> take (length out) out)"
    unfolding sv w by (simp split: option.splits)
  then have "\<exists>n. snd (snd (Save env flt order (ifs, fs))) = fs(?p \<mapsto> take n out)"
    by blast
  with st w show ?thesis by simp
qed

lemma Save_validStore:
  assumes "validStore ifs" and "settingsFileOK env fs"
  shows "validStore (fst (snd (Save env flt order (ifs, fs)))) \<and>
    settingsFileOK env (snd (snd (Save env flt order (ifs, fs))))"
proof -
  note r = Save_result [of env flt order ifs fs]
  have "CR \<notin> set (snd (writeEntries flt 0 (rangeEntries ifs order) []))"
  proof (rule writeEntries_no_CR)
    fix k v assume "(k, v) \<in> set (rangeEntries ifs order)"
    then have "data ifs k = Some v" by (rule rangeEntries_data)
    with assms(1) show "CR \<notin> set k \<and> CR \<notin> set v" by (simp add: validStore_def)
  qed simp
  then have "crAtLineEnds (take n (snd (writeEntries flt 0 (rangeEntries ifs order) [])))" for n
    by (intro crAtLineEnds_take crAtLineEnds_noCR)
  with r assms show ?thesis
    by (auto simp: settingsFileOK_def)
qed

lemma step_validLF: "validStoreLF (fst st) \<Longrightarrow> validStoreLF (fst (step env st op))"
proof (cases op)
  case (OpLoad flt)
  assume "validStoreLF (fst st)"
  then show ?thesis
    using Load_validLF [of "fst st" env flt "snd st"] OpLoad by simp
next
  case (OpSave flt order)
  assume "validStoreLF (fst st)"
  then show ?thesis
    using Save_result [of env flt order "fst st" "snd st"] OpSave by simp
qed (simp_all add: Put_validLF)

lemma step_validStore:
  assumes "validStore (fst st)" and "settingsFileOK env (snd st)"
  shows "validStore (fst (step env st op)) \<and> settingsFileOK env (snd (step env st op))"
proof (cases op)
  case (OpGet key)
  with assms show ?thesis by simp
next
  case (OpPut key val)
  with assms show ?thesis by (simp add: Put_validStore)
next
  case (OpLoad flt)
  with assms show ?thesis
    using Load_validStore [of "fst st" env "snd st" flt] by simp
next
  case (OpSave flt order)
  with assms show ?thesis
    using Save_validStore [of "fst st" env "snd st" flt order] by simp
qed

lemma run_validLF: "validStoreLF (fst st) \<Longrightarrow> validStoreLF (fst (run env st ops))"
  unfolding run_def by (induction ops arbitrary: st) (simp_all add: step_validLF)

lemma run_validStore:
  "validStore (fst st) \<Longrightarrow> settingsFileOK env (snd st) \<Longrightarrow> validStore (fst (run env st ops))"
  unfolding run_def by (induction ops arbitrary: st) (simp_all add: step_validStore)

section \<open>The reachable stores\<close>

text \<open>
  What holds of every store reachable from the empty store by \<open>Get\<close>, \<open>Put\<close>,
  \<open>Load\<close> and \<open>Save\<close>: no key and no value contains a line feed and no key
  contains \<open>=\<close>. When in the settings file the sequence starts with, if there is
  one, every carriage return is the last byte or is followed by a line feed (so when
  there is no file at the start, or one that \<open>Save\<close> wrote), no key and no value
  contains a carriage return either.
\<close>

lemma reachable_store_valid:
  "validStoreLF (fst (run env (NewIniFileSettings, fs) ops)) \<and>
   (settingsFileOK env fs \<longrightarrow> validStore (fst (run env (NewIniFileSettings, fs) ops)))"
proof -
  have "validStoreLF NewIniFileSettings" "validStore NewIniFileSettings"
    by (simp_all add: validStoreLF_def validStore_def NewIniFileSettings_def)
  then show ?thesis
    by (simp add: run_validLF run_validStore)
qed

lemma reachable_store_valid_example:
  "settingsFileOK exampleEnv [examplePath \<mapsto> '' a = b=c '' @ [CR, LF] @ ''d=e'' @ [CR]] \<and>
   validStore (fst (run exampleEnv
     (NewIniFileSettings, [examplePath \<mapsto> '' a = b=c '' @ [CR, LF] @ ''d=e'' @ [CR]])
     [OpLoad noFaults, OpPut ''f'' ''g'', OpSave noFaults [''f'', ''d'', ''a''], OpGet ''a''])) \<and>
   Get (fst (run exampleEnv
     (NewIniFileSettings, [examplePath \<mapsto> '' a = b=c '' @ [CR, LF] @ ''d=e'' @ [CR]])
     [OpLoad noFaults, OpPut ''f'' ''g'', OpSave noFaults [''f'', ''d'', ''a''], OpGet ''a''])) ''a'' =
     (''b=c'', True) \<and>
   snd (run exampleEnv
     (NewIniFileSettings, [examplePath \<mapsto> '' a = b=c '' @ [CR, LF] @ ''d=e'' @ [CR]])
     [OpLoad noFaults, OpPut ''f'' ''g'', OpSave noFaults [''f'', ''d'', ''a''], OpGet ''a'']) examplePath =
     Some (''f=g'' @ [LF] @ ''d=e'' @ [LF] @ ''a=b=c'' @ [LF])"
proof -
  let ?fs = "[examplePath \<mapsto> '' a = b=c '' @ [CR, LF] @ ''d=e'' @ [CR]]"
  let ?ops = "[OpLoad noFaults, OpPut ''f'' ''g'', OpSave noFaults [''f'', ''d'', ''a''], OpGet ''a'']"
  have ok: "settingsFileOK exampleEnv ?fs"
    by (simp add: settingsFileOK_def filePath_example CR_def LF_def)
  from reachable_store_valid [of exampleEnv ?fs ?ops] ok
  have v: "validStore (fst (run exampleEnv (NewIniFileSettings, ?fs) ?ops))"
    by blast
  have g: "Get (fst (run exampleEnv (NewIniFileSettings, ?fs) ?ops)) ''a'' = (''b=c'', True)"
    by code_simp
  have f: "snd (run exampleEnv (NewIniFileSettings, ?fs) ?ops) examplePath =
      Some (''f=g'' @ [LF] @ ''d=e'' @ [LF] @ ''a=b=c'' @ [LF])"
    by code_simp
  show ?thesis
    by (intro conjI) (rule ok v g f)+
qed

text \<open>
  C9 fails on the code: from the empty store, one \<open>Load()\<close> of a settings file with
  a carriage return inside a line leaves a key and a value that contain a carriage
  return. \<open>ReadLine\<close> takes off only the carriage return before the line feed and
  \<open>TrimSpace\<close> only white space at the two ends, and \<open>Load\<close> assigns to the map
  without the check that \<open>Put\<close> makes before its assignment: \<open>Put\<close> refuses the
  very entry that \<open>Load\<close> stored, as containing invalid characters.
\<close>

theorem Load_stores_carriage_return:
  "Get (fst (run exampleEnv
     (NewIniFileSettings, [examplePath \<mapsto> ''a'' @ [CR] @ ''b=c'' @ [CR] @ ''d'' @ [LF]])
     [OpLoad noFaults])) (''a'' @ [CR] @ ''b'') = (''c'' @ [CR] @ ''d'', True) \<and>
   CR \<in> set (''a'' @ [CR] @ ''b'') \<and> CR \<in> set (''c'' @ [CR] @ ''d'') \<and>
   Put NewIniFileSettings (''a'' @ [CR] @ ''b'') (''c'' @ [CR] @ ''d'') =
     (Some InvalidFormat, NewIniFileSettings)"
proof -
  have a: "Get (fst (run exampleEnv
     (NewIniFileSettings, [examplePath \<mapsto> ''a'' @ [CR] @ ''b=c'' @ [CR] @ ''d'' @ [LF]])
     [OpLoad noFaults])) (''a'' @ [CR] @ ''b'') = (''c'' @ [CR] @ ''d'', True)"
    by code_simp
  have b: "CR \<in> set (''a'' @ [CR] @ ''b'')" "CR \<in> set (''c'' @ [CR] @ ''d'')"
    by simp_all
  have c: "Put NewIniFileSettings (''a'' @ [CR] @ ''b'') (''c'' @ [CR] @ ''d'') =
     (Some InvalidFormat, NewIniFileSettings)"
    by (simp add: Put_cases InvalidFormat_def)
  show ?thesis
    by (intro conjI) (rule a b c)+
qed

end
